theory Spec2Isabelle
  imports Complex_Main "HOL-Library.Log_Nat"
begin

section \<open>Feature extraction and training crops of \<^verbatim>\<open>sense/finetuning.py\<close>\<close>

text \<open>
  The embedding follows \<^verbatim>\<open>src/sense/finetuning.py\<close>: the frame resampler
  \<^verbatim>\<open>uniform_frame_sample\<close>, the offline feature extraction
  \<^verbatim>\<open>compute_features\<close> (left padding, the two inference calls, the frames saved
  next to the features) and the training crop of \<^verbatim>\<open>FeaturesDataset.__getitem__\<close>.
  A video is the list of its frames, oldest first; a frame is a value of an arbitrary
  type \<open>'a\<close>, since the code never looks inside one on the paths modelled here.
\<close>

subsection \<open>Constants\<close>

definition MODEL_TEMPORAL_DEPENDENCY :: nat where
  "MODEL_TEMPORAL_DEPENDENCY = 45"

definition MODEL_TEMPORAL_STRIDE :: nat where
  "MODEL_TEMPORAL_STRIDE = 4"

subsection \<open>Errors\<close>

text \<open>The exceptions the modelled paths can raise.\<close>

datatype py_error = IndexError | ValueError | ZeroDivisionError

subsection \<open>Double-precision arithmetic\<close>

text \<open>
  \<^verbatim>\<open>sample_rate\<close>, \<^verbatim>\<open>1. / sample_rate\<close> and the values of \<^verbatim>\<open>np.arange\<close> are IEEE
  binary64 numbers. A finite double is modelled as the rational it denotes, and every
  arithmetic operation as the exact operation followed by rounding to the nearest
  number with a 53-bit significand, ties to even. Overflow, subnormal numbers, signed
  zero and NaN are left out: the values that occur (frame rates, frame counts and
  their quotients) are far inside the normal range.
\<close>

definition pow2 :: "int \<Rightarrow> rat" where
  "pow2 k = (if 0 \<le> k then 2 ^ nat k else 1 / 2 ^ nat (- k))"

text \<open>The binary exponent of a positive rational: \<open>2 ^ e \<le> x < 2 ^ (e + 1)\<close>.\<close>

definition expo :: "rat \<Rightarrow> int" where
  "expo x = (if 1 \<le> x then bitlen \<lfloor>x\<rfloor> - 1 else - bitlen (\<lceil>1 / x\<rceil> - 1))"

text \<open>Rounding to the nearest integer, ties to the even one.\<close>

definition round_half_even :: "rat \<Rightarrow> int" where
  "round_half_even x =
     (let r = \<lfloor>x\<rfloor>; d = x - of_int r
      in if d < 1 / 2 then r else if 1 / 2 < d then r + 1
         else if even r then r else r + 1)"

definition rnd :: "rat \<Rightarrow> rat" where
  "rnd x =
     (if x = 0 then 0
      else let a = \<bar>x\<bar>; e = expo a; m = round_half_even (a * pow2 (52 - e))
           in sgn x * of_int m * pow2 (e - 52))"

definition fl_add :: "rat \<Rightarrow> rat \<Rightarrow> rat" where
  "fl_add x y = rnd (x + y)"

definition fl_sub :: "rat \<Rightarrow> rat \<Rightarrow> rat" where
  "fl_sub x y = rnd (x - y)"

definition fl_mul :: "rat \<Rightarrow> rat \<Rightarrow> rat" where
  "fl_mul x y = rnd (x * y)"

definition fl_div :: "rat \<Rightarrow> rat \<Rightarrow> rat" where
  "fl_div x y = rnd (x / y)"

text \<open>
  \<^verbatim>\<open>int(x)\<close> and \<^verbatim>\<open>astype(np.int32)\<close>: truncation towards zero. The cast to
  \<^verbatim>\<open>int32\<close> is modelled for values below \<open>2 ^ 31\<close>, which the indices of a video of
  fewer than \<open>2 ^ 31\<close> frames are.
\<close>

definition trunc :: "rat \<Rightarrow> int" where
  "trunc x = (if 0 \<le> x then \<lfloor>x\<rfloor> else \<lceil>x\<rceil>)"

subsection \<open>\<^verbatim>\<open>uniform_frame_sample\<close>\<close>

text \<open>
  \<^verbatim>\<open>np.arange(0, depth, step)\<close> for a float step: the length is
  \<open>ceil((stop - start) / step)\<close>, computed in doubles, and element \<open>i\<close> is
  \<open>start + i * step\<close>. A non-positive length gives the empty array.
\<close>

definition arange :: "nat \<Rightarrow> rat \<Rightarrow> rat list" where
  "arange depth step =
     map (\<lambda>i. fl_mul (of_nat i) step) [0..<nat \<lceil>fl_div (of_nat depth) step\<rceil>]"

text \<open>
  \<^verbatim>\<open>video[sampled_frames]\<close>: indexing with an integer array. An index \<open>i\<close> with
  \<open>- depth \<le> i < 0\<close> counts from the end; an index outside \<open>- depth \<le> i < depth\<close>
  raises \<^verbatim>\<open>IndexError\<close>.
\<close>

definition take_frames :: "'a list \<Rightarrow> int list \<Rightarrow> py_error + 'a list" where
  "take_frames video idx =
     (let depth = int (length video)
      in if list_all (\<lambda>i. - depth \<le> i \<and> i < depth) idx
         then Inr (map (\<lambda>i. video ! nat (if i < 0 then i + depth else i)) idx)
         else Inl IndexError)"

text \<open>
  The indices the resampler computes, before they are used: \<^verbatim>\<open>indices[-1]\<close> on an
  empty array raises \<^verbatim>\<open>IndexError\<close>, and \<^verbatim>\<open>1. / sample_rate\<close> raises
  \<^verbatim>\<open>ZeroDivisionError\<close> for a zero rate.
\<close>

definition sampled_frames :: "nat \<Rightarrow> rat \<Rightarrow> py_error + int list" where
  "sampled_frames depth sample_rate =
     (if sample_rate = 0 then Inl ZeroDivisionError
      else let indices = arange depth (fl_div 1 sample_rate)
           in if indices = [] then Inl IndexError
              else let offset = trunc (fl_div (fl_sub (of_nat depth) (last indices)) 2)
                   in Inr (map (\<lambda>x. trunc (fl_add x (of_int offset))) indices))"

definition uniform_frame_sample :: "'a list \<Rightarrow> rat \<Rightarrow> py_error + 'a list" where
  "uniform_frame_sample video sample_rate =
     (if sample_rate < 1
      then (case sampled_frames (length video) sample_rate of
              Inl e \<Rightarrow> Inl e
            | Inr idx \<Rightarrow> take_frames video idx)
      else Inr video)"

text \<open>
  The index formula in the words of the spec, for comparison with the code: select the
  \<open>round(i / ratio)\<close>-th frames, shifted by an offset.
\<close>

definition spec_round_index :: "rat \<Rightarrow> int \<Rightarrow> nat \<Rightarrow> int" where
  "spec_round_index ratio offset i = round (of_nat i / ratio) + offset"

subsection \<open>\<^verbatim>\<open>compute_features\<close>\<close>

text \<open>
  The number of copies of the first frame put in front of the video:
  \<^verbatim>\<open>MODEL_TEMPORAL_STRIDE * (MODEL_TEMPORAL_DEPENDENCY // MODEL_TEMPORAL_STRIDE + 1) - 1\<close>.
\<close>

definition frames_to_add :: nat where
  "frames_to_add =
     MODEL_TEMPORAL_STRIDE * (MODEL_TEMPORAL_DEPENDENCY div MODEL_TEMPORAL_STRIDE + 1) - 1"

text \<open>
  \<^verbatim>\<open>np.pad(frames, ((n, 0), ...), mode='edge')\<close> along the time axis: \<open>n\<close> copies of
  the first frame on the left, nothing on the right. An empty axis cannot be extended
  in this mode: \<^verbatim>\<open>ValueError\<close>.
\<close>

definition pad_edge :: "nat \<Rightarrow> 'a list \<Rightarrow> py_error + 'a list" where
  "pad_edge n frames =
     (case frames of [] \<Rightarrow> Inl ValueError | f # _ \<Rightarrow> Inr (replicate n f @ frames))"

text \<open>
  A Python slice \<^verbatim>\<open>xs[a:b]\<close> with integer bounds: a negative bound counts from the
  end, and both are clipped to the list. \<^verbatim>\<open>xs[a:]\<close> is \<open>py_slice_from\<close>.
\<close>

definition slice_bound :: "nat \<Rightarrow> int \<Rightarrow> nat" where
  "slice_bound n a = (if a < 0 then nat (a + int n) else min (nat a) n)"

definition py_slice :: "'a list \<Rightarrow> int \<Rightarrow> int \<Rightarrow> 'a list" where
  "py_slice xs a b =
     (let lo = slice_bound (length xs) a; hi = slice_bound (length xs) b
      in take (hi - lo) (drop lo xs))"

definition py_slice_from :: "'a list \<Rightarrow> int \<Rightarrow> 'a list" where
  "py_slice_from xs a = drop (slice_bound (length xs) a) xs"

text \<open>
  The frames written next to the features:
  \<^verbatim>\<open>for e, frame in enumerate(frames[frames_to_add:]): if e % MODEL_TEMPORAL_STRIDE == 0\<close>.
  The \<open>e\<close>-th frame kept is saved as \<^verbatim>\<open>str(e) + '.jpg'\<close>.
\<close>

definition frames_to_save :: "'a list \<Rightarrow> 'a list" where
  "frames_to_save frames =
     map snd (filter (\<lambda>(e, frame). e mod MODEL_TEMPORAL_STRIDE = 0)
                (enumerate 0 (drop frames_to_add frames)))"

record ('a, 'f, 's) extraction =
  features :: "'f list"
  saved_frames :: "'a list option"
  engine_state :: 's

text \<open>
  \<^verbatim>\<open>compute_features\<close>. The arguments are what the function reads from its
  collaborators: \<open>infer\<close> is \<^verbatim>\<open>inference_engine.infer\<close>, a function of the engine's
  state and a clip that returns the outputs and the new state (the network keeps
  state between calls); \<open>video\<close> is the list of rescaled frames the video source
  yields until it is exhausted; \<open>engine_fps\<close> and \<open>video_fps\<close> are
  \<^verbatim>\<open>inference_engine.fps\<close> and \<^verbatim>\<open>video_source.get_fps()\<close>; \<open>save\<close> says whether
  \<^verbatim>\<open>path_frames\<close> is given. The result holds the array written to \<^verbatim>\<open>path_out\<close>,
  the frames written to \<^verbatim>\<open>path_frames\<close>, and the engine's state afterwards.
\<close>

definition compute_features ::
  "('s \<Rightarrow> 'a list \<Rightarrow> 'f list \<times> 's) \<Rightarrow> 's \<Rightarrow> 'a list \<Rightarrow> rat \<Rightarrow> rat \<Rightarrow> int \<Rightarrow> bool
     \<Rightarrow> py_error + ('a, 'f, 's) extraction" where
  "compute_features infer st video engine_fps video_fps n_timesteps save =
     (if video_fps = 0 then Inl ZeroDivisionError
      else case uniform_frame_sample video (fl_div engine_fps video_fps) of
        Inl e \<Rightarrow> Inl e
      | Inr sampled \<Rightarrow>
          (case pad_edge frames_to_add sampled of
             Inl e \<Rightarrow> Inl e
           | Inr frames \<Rightarrow>
               (let (pre_features, st1) = infer st (take (frames_to_add + 1) frames);
                    temporal_dependancy_features = py_slice_from pre_features (- n_timesteps);
                    (predictions, st2) = infer st1 (drop (frames_to_add + 1) frames)
                in Inr \<lparr> features = temporal_dependancy_features @ predictions,
                         saved_frames = (if save then Some (frames_to_save frames) else None),
                         engine_state = st2 \<rparr>)))"

subsection \<open>The inference engine\<close>

text \<open>
  Modelled from the spec: \<^verbatim>\<open>InferenceEngine.infer\<close> (\<^verbatim>\<open>sense/engine.py\<close>) is not
  among the sources. The spec describes the model as an opaque function that carries
  temporal state across consecutive calls and is called in strict step order; a step
  is one unit of model output, corresponding to one stride-aligned window, and the
  stride is the number of frames consumed per step. So a call on a clip yields one
  output for every \<open>MODEL_TEMPORAL_STRIDE\<close> frames of the clip, in temporal order;
  output \<open>j\<close> is the opaque network \<open>net\<close> applied to the frames consumed up to and
  including frame \<open>MODEL_TEMPORAL_STRIDE * (j + 1) - 1\<close> of the clip, the right edge of
  its window. The state is the list of frames consumed by earlier calls, oldest
  first; which of them the network still looks at is part of \<open>net\<close>.
\<close>

definition engine_infer :: "('a list \<Rightarrow> 'f) \<Rightarrow> 'a list \<Rightarrow> 'a list \<Rightarrow> 'f list \<times> 'a list" where
  "engine_infer net seen clip =
     (map (\<lambda>j. net (seen @ take (MODEL_TEMPORAL_STRIDE * (j + 1)) clip))
        [0..<length clip div MODEL_TEMPORAL_STRIDE],
      seen @ clip)"

text \<open>
  An engine that only records the clips it is called on, in order: its state after
  \<^verbatim>\<open>compute_features\<close> is the list of the model calls made.
\<close>

definition recording_infer :: "'a list list \<Rightarrow> 'a list \<Rightarrow> unit list \<times> 'a list list" where
  "recording_infer calls clip = ([], calls @ [clip])"

subsection \<open>\<^verbatim>\<open>FeaturesDataset\<close>\<close>

text \<open>
  The dataset object. \<open>files\<close> holds, for every file name, the feature array stored
  in the file (what \<^verbatim>\<open>np.load\<close> returns); \<open>temporal_annotations\<close> holds \<open>None\<close> for an
  item without temporal annotation.
\<close>

record ('f, 'l) features_dataset =
  files :: "'f list list"
  labels :: "'l list"
  num_timesteps :: "int option"
  stride :: int
  temporal_annotations :: "int list option list"
  num_frames_padded :: int

text \<open>
  \<^verbatim>\<open>int(a / b)\<close> for integers: true division, which gives the double nearest to the
  quotient, then truncation towards zero.
\<close>

definition int_div_trunc :: "int \<Rightarrow> int \<Rightarrow> py_error + int" where
  "int_div_trunc a b =
     (if b = 0 then Inl ZeroDivisionError else Inr (trunc (fl_div (of_int a) (of_int b))))"

text \<open>\<^verbatim>\<open>FeaturesDataset.__init__\<close>, with the defaults of the signature passed explicitly.\<close>

definition features_dataset_init ::
  "'f list list \<Rightarrow> 'l list \<Rightarrow> int list option list \<Rightarrow> int \<Rightarrow> int option \<Rightarrow> int
     \<Rightarrow> py_error + ('f, 'l) features_dataset" where
  "features_dataset_init fs ls temporal_annotation full_network_minimum_frames nt strd =
     (case int_div_trunc (full_network_minimum_frames - 1) strd of
        Inl e \<Rightarrow> Inl e
      | Inr padded \<Rightarrow>
          Inr \<lparr> files = fs, labels = ls, num_timesteps = nt, stride = strd,
                temporal_annotations = temporal_annotation, num_frames_padded = padded \<rparr>)"

text \<open>Indexing a Python list: a negative index counts from the end.\<close>

definition py_nth :: "'a list \<Rightarrow> int \<Rightarrow> py_error + 'a" where
  "py_nth xs i =
     (let n = int (length xs); j = (if i < 0 then i + n else i)
      in if 0 \<le> j \<and> j < n then Inr (xs ! nat j) else Inl IndexError)"

text \<open>
  The random draws are modelled by the values they can return.
  \<^verbatim>\<open>np.random.randint(low, high)\<close> returns any integer from \<open>low\<close> up to but excluding
  \<open>high\<close>, and raises \<^verbatim>\<open>ValueError\<close> when there is none.
  \<^verbatim>\<open>np.random.choice(n, 1, p=probas)[0]\<close> returns any index below \<open>n\<close> whose
  probability is positive; the probabilities computed from a temporal annotation are
  all positive, and \<open>n = 0\<close> raises \<^verbatim>\<open>ValueError\<close>.
\<close>

definition randint :: "int \<Rightarrow> int \<Rightarrow> py_error + int list" where
  "randint low high = (if low < high then Inr [low..high - 1] else Inl ValueError)"

definition random_choice :: "nat \<Rightarrow> py_error + int list" where
  "random_choice n = (if n = 0 then Inl ValueError else Inr [0..int n - 1])"

text \<open>The start of the crop when the item has no temporal annotation.\<close>

definition minimum_position :: "int \<Rightarrow> int \<Rightarrow> int \<Rightarrow> int" where
  "minimum_position num_preds nt padded = max (min (num_preds - nt - 1) padded) 0"

definition crop_positions :: "int \<Rightarrow> int \<Rightarrow> int \<Rightarrow> py_error + int list" where
  "crop_positions num_preds nt padded =
     randint (minimum_position num_preds nt padded) (num_preds - nt)"

text \<open>
  \<^verbatim>\<open>FeaturesDataset.__getitem__\<close>: the list of the items the call can return, one for
  every value the random draw can take, each as (features, label, temporal
  annotation). The label is read last, in the \<^verbatim>\<open>return\<close> statement, after the draw
  and the slicing.
\<close>

definition getitem ::
  "('f, 'l) features_dataset \<Rightarrow> int \<Rightarrow> py_error + ('f list \<times> 'l \<times> int list) list" where
  "getitem ds idx =
     (case py_nth (files ds) idx of Inl e \<Rightarrow> Inl e | Inr feats \<Rightarrow>
      case py_nth (temporal_annotations ds) idx of Inl e \<Rightarrow> Inl e | Inr temporal_annotation \<Rightarrow>
      let num_preds = int (length feats);
          crop = (case num_timesteps ds of
                    None \<Rightarrow> None
                  | Some nt \<Rightarrow> if nt \<noteq> 0 \<and> nt < num_preds then Some nt else None);
          drawn =
            (case crop of
               None \<Rightarrow>
                 Inr [(feats, case temporal_annotation of None \<Rightarrow> [- 100] | Some ann \<Rightarrow> ann)]
             | Some nt \<Rightarrow>
                 (case temporal_annotation of
                    Some ann \<Rightarrow>
                      (case random_choice (length ann) of Inl e \<Rightarrow> Inl e | Inr positions \<Rightarrow>
                       case int_div_trunc (int MODEL_TEMPORAL_STRIDE) (stride ds) of
                         Inl e \<Rightarrow> Inl e
                       | Inr k \<Rightarrow>
                           Inr (map (\<lambda>position.
                                  (py_slice feats (position * k) (position * k + nt),
                                   py_slice ann position (position + 1))) positions))
                  | None \<Rightarrow>
                      (case crop_positions num_preds nt (num_frames_padded ds) of
                         Inl e \<Rightarrow> Inl e
                       | Inr positions \<Rightarrow>
                           Inr (map (\<lambda>position.
                                  (py_slice feats position (position + nt), [- 100]))
                                positions))))
      in case drawn of Inl e \<Rightarrow> Inl e | Inr items \<Rightarrow>
         (case py_nth (labels ds) idx of
            Inl e \<Rightarrow> Inl e
          | Inr label \<Rightarrow> Inr (map (\<lambda>(feats', annotation). (feats', label, annotation)) items)))"

section \<open>Properties\<close>

subsection \<open>Rounding to a double\<close>

text \<open>
  Powers of two, the exponent of a positive rational, and the facts about rounding
  used below: a number with a significand below \<open>2 ^ 53\<close> is a double and rounds to
  itself, rounding moves a number by at most half a unit in the last place, and
  rounding is monotone.
\<close>

lemma pow2_powi: "pow2 k = 2 powi k"
  by (simp add: pow2_def power_int_def inverse_eq_divide power_one_over)

lemma pow2_pos: "0 < pow2 k"
  by (simp add: pow2_def)

lemma pow2_add: "pow2 (j + k) = pow2 j * pow2 k"
  by (simp add: pow2_powi power_int_add)

lemma pow2_nat: "0 \<le> k \<Longrightarrow> pow2 k = of_int (2 ^ nat k)"
  by (simp add: pow2_def)

lemma pow2_cancel: "pow2 k * pow2 (- k) = 1"
  using pow2_add [of k "- k"] by (simp add: pow2_def)

lemma pow2_mono: "j \<le> k \<Longrightarrow> pow2 j \<le> pow2 k"
  by (simp add: pow2_powi power_int_increasing)

lemma pow2_less_cancel: "pow2 j < pow2 k \<Longrightarrow> j < k"
  using pow2_mono [of k j] by (cases "j < k") auto

lemma expo_lower: assumes "0 < x" shows "pow2 (expo x) \<le> x"
proof (cases "1 \<le> x")
  case True
  then have f: "0 < \<lfloor>x\<rfloor>" by linarith
  from bitlen_bounds [OF f] have b: "2 ^ nat (bitlen \<lfloor>x\<rfloor> - 1) \<le> \<lfloor>x\<rfloor>" by simp
  have ge: "0 \<le> bitlen \<lfloor>x\<rfloor> - 1"
    using f bitlen_eq_zero_iff [of "\<lfloor>x\<rfloor>"] bitlen_nonneg [of "\<lfloor>x\<rfloor>"] by linarith
  have "pow2 (bitlen \<lfloor>x\<rfloor> - 1) = of_int (2 ^ nat (bitlen \<lfloor>x\<rfloor> - 1))"
    by (rule pow2_nat [OF ge])
  also have "\<dots> \<le> of_int \<lfloor>x\<rfloor>" using b by (simp only: of_int_le_iff)
  also have "\<dots> \<le> x" by simp
  finally show ?thesis using True by (simp add: expo_def)
next
  case False
  define c where "c = \<lceil>1 / x\<rceil>"
  define k where "k = bitlen (c - 1)"
  from False assms have "1 < 1 / x" by (simp add: field_simps)
  then have c: "2 \<le> c" unfolding c_def by linarith
  then have pos: "0 < c - 1" by simp
  from bitlen_bounds [OF pos] have b: "c - 1 < 2 ^ nat k" unfolding k_def by simp
  have k: "0 \<le> k" unfolding k_def by (rule bitlen_nonneg)
  have "1 / x \<le> of_int c" unfolding c_def by simp
  also have "\<dots> \<le> of_int (2 ^ nat k)" using b by (simp only: of_int_le_iff)
  also have "\<dots> = pow2 k" using pow2_nat [OF k] by simp
  finally have "1 / x \<le> pow2 k" .
  then have "1 \<le> pow2 k * x" using assms by (simp add: field_simps)
  then have "pow2 (- k) * 1 \<le> pow2 (- k) * (pow2 k * x)"
    using pow2_pos [of "- k"] by (simp only: mult_le_cancel_left_pos)
  moreover have "pow2 (- k) * (pow2 k * x) = (pow2 k * pow2 (- k)) * x" by (simp only: ac_simps)
  ultimately have "pow2 (- k) \<le> x" by (simp only: pow2_cancel mult_1 mult_1_right)
  then show ?thesis using False by (simp add: expo_def c_def k_def)
qed

lemma expo_upper: assumes "0 < x" shows "x < pow2 (expo x + 1)"
proof (cases "1 \<le> x")
  case True
  then have f: "0 < \<lfloor>x\<rfloor>" by linarith
  from bitlen_bounds [OF f] have b: "\<lfloor>x\<rfloor> < 2 ^ nat (bitlen \<lfloor>x\<rfloor>)" by simp
  have ge: "0 \<le> bitlen \<lfloor>x\<rfloor>" by (rule bitlen_nonneg)
  have "x < of_int (\<lfloor>x\<rfloor> + 1)" by linarith
  also have "\<dots> \<le> of_int (2 ^ nat (bitlen \<lfloor>x\<rfloor>))" using b by (simp only: of_int_le_iff)
  also have "\<dots> = pow2 (bitlen \<lfloor>x\<rfloor>)" using pow2_nat [OF ge] by simp
  finally show ?thesis using True by (simp add: expo_def)
next
  case False
  define c where "c = \<lceil>1 / x\<rceil>"
  define k where "k = bitlen (c - 1)"
  from False assms have "1 < 1 / x" by (simp add: field_simps)
  then have c: "2 \<le> c" unfolding c_def by linarith
  then have pos: "0 < c - 1" by simp
  from bitlen_bounds [OF pos] have b: "2 ^ nat (k - 1) \<le> c - 1" unfolding k_def by simp
  have k: "0 \<le> k - 1" unfolding k_def
    using pos bitlen_eq_zero_iff [of "c - 1"] bitlen_nonneg [of "c - 1"] by linarith
  have "pow2 (k - 1) = of_int (2 ^ nat (k - 1))" by (rule pow2_nat [OF k])
  also have "\<dots> \<le> of_int (c - 1)" using b by (simp only: of_int_le_iff)
  also have "\<dots> < 1 / x" unfolding c_def by linarith
  finally have "pow2 (k - 1) < 1 / x" .
  then have "pow2 (k - 1) * x < 1" using assms by (simp add: field_simps)
  then have "pow2 (1 - k) * (pow2 (k - 1) * x) < pow2 (1 - k) * 1"
    using pow2_pos [of "1 - k"] by (simp only: mult_less_cancel_left_pos)
  moreover have "pow2 (1 - k) * (pow2 (k - 1) * x) = (pow2 (k - 1) * pow2 (- (k - 1))) * x"
    by (simp only: ac_simps minus_diff_eq)
  ultimately have "x < pow2 (1 - k)" by (simp only: pow2_cancel mult_1 mult_1_right)
  then show ?thesis using False by (simp add: expo_def c_def k_def)
qed

lemma expo_less: assumes "0 < x" "x < pow2 n" shows "expo x < n"
  using expo_lower [OF assms(1)] assms(2) pow2_less_cancel [of "expo x" n] by linarith

lemma round_half_even_of_int: "round_half_even (of_int n) = n"
  by (simp add: round_half_even_def)

lemma round_half_even_err: "\<bar>of_int (round_half_even x) - x\<bar> \<le> 1 / 2"
proof -
  define r where "r = \<lfloor>x\<rfloor>"
  have b: "of_int r \<le> x" "x < of_int r + 1" unfolding r_def by linarith+
  have "round_half_even x = r \<and> x - of_int r \<le> 1 / 2
      \<or> round_half_even x = r + 1 \<and> 1 / 2 \<le> x - of_int r"
    unfolding round_half_even_def Let_def r_def by auto
  then show ?thesis using b by (auto simp: abs_le_iff)
qed

lemma rnd_0: "rnd 0 = 0"
  by (simp add: rnd_def)

lemma rnd_minus: "rnd (- x) = - rnd x"
  by (simp add: rnd_def Let_def)

lemma rnd_exact_pos:
  assumes m: "0 < m" "m < 2 ^ 53"
  shows "rnd (of_int m * pow2 k) = of_int m * pow2 k"
proof -
  define a where "a = of_int m * pow2 k"
  define e where "e = expo a"
  have apos: "0 < a" unfolding a_def using m(1) pow2_pos [of k] by simp
  have "a < of_int (2 ^ 53) * pow2 k"
    unfolding a_def using m(2) pow2_pos [of k] by (simp only: mult_less_cancel_right_pos of_int_less_iff)
  also have "\<dots> = pow2 (53 + k)"
  proof -
    have "pow2 53 = of_int (2 ^ 53)" by (simp add: pow2_def)
    then show ?thesis by (simp only: pow2_add)
  qed
  finally have "e < 53 + k" unfolding e_def using expo_less [OF apos] by simp
  then have ge: "0 \<le> k + (52 - e)" by simp
  have "a * pow2 (52 - e) = of_int m * pow2 (k + (52 - e))"
    unfolding a_def by (simp add: pow2_add)
  also have "\<dots> = of_int (m * 2 ^ nat (k + (52 - e)))"
    using pow2_nat [OF ge] by simp
  finally have sc: "a * pow2 (52 - e) = of_int (m * 2 ^ nat (k + (52 - e)))" .
  have "rnd a = of_int (round_half_even (a * pow2 (52 - e))) * pow2 (e - 52)"
    using apos by (simp add: rnd_def Let_def e_def)
  also have "\<dots> = (a * pow2 (52 - e)) * pow2 (e - 52)"
    by (simp only: sc round_half_even_of_int)
  also have "\<dots> = a * (pow2 (52 - e) * pow2 (- (52 - e)))" by (simp only: ac_simps minus_diff_eq)
  also have "\<dots> = a" by (simp only: pow2_cancel mult_1_right)
  finally show ?thesis unfolding a_def .
qed

lemma rnd_exact:
  assumes "\<bar>m\<bar> < 2 ^ 53"
  shows "rnd (of_int m * pow2 k) = of_int m * pow2 k"
proof -
  consider "m = 0" | "0 < m" | "m < 0" by linarith
  then show ?thesis
  proof cases
    case 1 then show ?thesis by (simp add: rnd_0)
  next
    case 2 then show ?thesis using assms rnd_exact_pos [of m k] by simp
  next
    case 3
    then have "rnd (of_int (- m) * pow2 k) = of_int (- m) * pow2 k"
      using assms rnd_exact_pos [of "- m" k] by simp
    then show ?thesis using rnd_minus [of "of_int m * pow2 k"] by simp
  qed
qed

lemma rnd_of_int: "\<bar>m\<bar> < 2 ^ 53 \<Longrightarrow> rnd (of_int m) = of_int m"
  using rnd_exact [of m 0] by (simp add: pow2_def)

lemma rnd_of_nat: "n < 2 ^ 53 \<Longrightarrow> rnd (of_nat n) = of_nat n"
  using rnd_of_int [of "int n"] by simp

lemma rnd_half: "\<bar>m\<bar> < 2 ^ 53 \<Longrightarrow> rnd (of_int m / 2) = of_int m / 2"
  using rnd_exact [of m "- 1"] by (simp add: pow2_def)

lemma rnd_err:
  assumes "x \<noteq> 0"
  shows "\<bar>rnd x - x\<bar> \<le> pow2 (expo \<bar>x\<bar> - 53)"
proof -
  define a where "a = \<bar>x\<bar>"
  define e where "e = expo a"
  define m where "m = round_half_even (a * pow2 (52 - e))"
  have r: "rnd x = sgn x * (of_int m * pow2 (e - 52))"
    using assms by (simp add: rnd_def Let_def a_def e_def m_def)
  have x: "x = sgn x * a" unfolding a_def by (simp add: mult_sgn_abs)
  have "\<bar>rnd x - x\<bar> = \<bar>sgn x * (of_int m * pow2 (e - 52) - a)\<bar>"
    by (subst r, subst (2) x) (simp only: right_diff_distrib)
  also have "\<dots> = \<bar>of_int m * pow2 (e - 52) - a\<bar>"
    using assms by (simp add: abs_mult abs_sgn_eq)
  also have "of_int m * pow2 (e - 52) - a = (of_int m - a * pow2 (52 - e)) * pow2 (e - 52)"
  proof -
    have "a * pow2 (52 - e) * pow2 (e - 52) = a * (pow2 (52 - e) * pow2 (- (52 - e)))"
      by (simp only: ac_simps minus_diff_eq)
    then show ?thesis by (simp only: left_diff_distrib pow2_cancel mult_1_right)
  qed
  also have "\<bar>\<dots>\<bar> = \<bar>of_int m - a * pow2 (52 - e)\<bar> * pow2 (e - 52)"
    using pow2_pos [of "e - 52"] by (simp add: abs_mult)
  also have "\<dots> \<le> (1 / 2) * pow2 (e - 52)"
    using round_half_even_err [of "a * pow2 (52 - e)"] pow2_pos [of "e - 52"]
    unfolding m_def by (simp only: mult_le_cancel_right_pos)
  also have "\<dots> = pow2 (e - 53)"
    using pow2_add [of "- 1" "e - 52"] by (simp add: pow2_def)
  finally show ?thesis unfolding e_def a_def .
qed

lemma rnd_err_bound:
  assumes "\<bar>x\<bar> < pow2 n"
  shows "\<bar>rnd x - x\<bar> \<le> pow2 (n - 54)"
proof (cases "x = 0")
  case True then show ?thesis using pow2_pos [of "n - 54"] by (simp add: rnd_0)
next
  case False
  then have "expo \<bar>x\<bar> < n" using expo_less [of "\<bar>x\<bar>" n] assms by simp
  then have "pow2 (expo \<bar>x\<bar> - 53) \<le> pow2 (n - 54)" by (intro pow2_mono) simp
  then show ?thesis using rnd_err [OF False] by linarith
qed

lemma round_half_even_cases:
  "round_half_even x = \<lfloor>x\<rfloor> \<and> (x - of_int \<lfloor>x\<rfloor> < 1 / 2 \<or> x - of_int \<lfloor>x\<rfloor> = 1 / 2 \<and> even \<lfloor>x\<rfloor>)
   \<or> round_half_even x = \<lfloor>x\<rfloor> + 1 \<and> (1 / 2 < x - of_int \<lfloor>x\<rfloor> \<or> x - of_int \<lfloor>x\<rfloor> = 1 / 2 \<and> odd \<lfloor>x\<rfloor>)"
  unfolding round_half_even_def Let_def by auto

lemma round_half_even_mono:
  assumes "x \<le> y"
  shows "round_half_even x \<le> round_half_even y"
proof -
  have fl: "\<lfloor>x\<rfloor> \<le> \<lfloor>y\<rfloor>" using assms by (rule floor_mono)
  show ?thesis
  proof (cases "\<lfloor>x\<rfloor> = \<lfloor>y\<rfloor>")
    case True
    then have "x - of_int \<lfloor>x\<rfloor> \<le> y - of_int \<lfloor>y\<rfloor>" using assms by simp
    then show ?thesis
      using round_half_even_cases [of x] round_half_even_cases [of y] True by auto
  next
    case False
    with fl have "\<lfloor>x\<rfloor> + 1 \<le> \<lfloor>y\<rfloor>" by simp
    then show ?thesis
      using round_half_even_cases [of x] round_half_even_cases [of y] by auto
  qed
qed

lemma rnd_pos_eq:
  "0 < x \<Longrightarrow> rnd x = of_int (round_half_even (x * pow2 (52 - expo x))) * pow2 (expo x - 52)"
  by (simp add: rnd_def Let_def)

lemma scaled_bounds:
  assumes "0 < x"
  shows "of_int (2 ^ 52) \<le> x * pow2 (52 - expo x)" and "x * pow2 (52 - expo x) \<le> of_int (2 ^ 53)"
proof -
  define e where "e = expo x"
  have p: "0 < pow2 (52 - e)" by (rule pow2_pos)
  have a: "pow2 52 = of_int (2 ^ 52)" "pow2 53 = of_int (2 ^ 53)" by (simp_all add: pow2_def)
  have "pow2 e * pow2 (52 - e) \<le> x * pow2 (52 - e)"
    using expo_lower [OF assms] p unfolding e_def by (simp only: mult_le_cancel_right_pos)
  moreover have "pow2 e * pow2 (52 - e) = pow2 52" using pow2_add [of e "52 - e"] by simp
  ultimately show "of_int (2 ^ 52) \<le> x * pow2 (52 - expo x)" unfolding e_def a by simp
  have "x * pow2 (52 - e) < pow2 (e + 1) * pow2 (52 - e)"
    using expo_upper [OF assms] p unfolding e_def by (simp only: mult_less_cancel_right_pos)
  moreover have "pow2 (e + 1) * pow2 (52 - e) = pow2 53"
    using pow2_add [of "e + 1" "52 - e"] by (simp add: add.commute)
  ultimately show "x * pow2 (52 - expo x) \<le> of_int (2 ^ 53)" unfolding e_def a by simp
qed

lemma rnd_pos_bounds:
  assumes "0 < x"
  shows "pow2 (expo x) \<le> rnd x" and "rnd x \<le> pow2 (expo x + 1)"
proof -
  define e where "e = expo x"
  define m where "m = round_half_even (x * pow2 (52 - e))"
  have r: "rnd x = of_int m * pow2 (e - 52)" unfolding m_def e_def by (rule rnd_pos_eq [OF assms])
  have p: "0 < pow2 (e - 52)" by (rule pow2_pos)
  have a: "pow2 52 = of_int (2 ^ 52)" "pow2 53 = of_int (2 ^ 53)" by (simp_all add: pow2_def)
  have "round_half_even (of_int (2 ^ 52)) \<le> m" unfolding m_def e_def
    by (rule round_half_even_mono [OF scaled_bounds(1) [OF assms]])
  then have "(of_int (2 ^ 52) :: rat) \<le> of_int m"
    unfolding round_half_even_of_int by (simp only: of_int_le_iff)
  then have "pow2 52 * pow2 (e - 52) \<le> of_int m * pow2 (e - 52)"
    using p unfolding a by (simp only: mult_le_cancel_right_pos)
  moreover have "pow2 52 * pow2 (e - 52) = pow2 e" using pow2_add [of 52 "e - 52"] by simp
  ultimately show "pow2 (expo x) \<le> rnd x" unfolding r e_def by simp
  have "m \<le> round_half_even (of_int (2 ^ 53))" unfolding m_def e_def
    by (rule round_half_even_mono [OF scaled_bounds(2) [OF assms]])
  then have "of_int m \<le> (of_int (2 ^ 53) :: rat)"
    unfolding round_half_even_of_int by (simp only: of_int_le_iff)
  then have "of_int m * pow2 (e - 52) \<le> pow2 53 * pow2 (e - 52)"
    using p unfolding a by (simp only: mult_le_cancel_right_pos)
  moreover have "pow2 53 * pow2 (e - 52) = pow2 (e + 1)"
    using pow2_add [of 53 "e - 52"] by (simp add: add.commute)
  ultimately show "rnd x \<le> pow2 (expo x + 1)" unfolding r e_def by simp
qed

lemma rnd_pos: "0 < x \<Longrightarrow> 0 < rnd x"
  using rnd_pos_bounds(1) [of x] pow2_pos [of "expo x"] by linarith

lemma rnd_mono_pos:
  assumes "0 < x" "x \<le> y"
  shows "rnd x \<le> rnd y"
proof -
  have y: "0 < y" using assms by linarith
  have "pow2 (expo x) < pow2 (expo y + 1)"
    using expo_lower [OF assms(1)] expo_upper [OF y] assms(2) by linarith
  then have le: "expo x \<le> expo y" using pow2_less_cancel [of "expo x" "expo y + 1"] by simp
  show ?thesis
  proof (cases "expo x = expo y")
    case True
    have "x * pow2 (52 - expo y) \<le> y * pow2 (52 - expo y)"
      using assms(2) pow2_pos [of "52 - expo y"] by (simp only: mult_le_cancel_right_pos)
    then have "round_half_even (x * pow2 (52 - expo y)) \<le> round_half_even (y * pow2 (52 - expo y))"
      by (rule round_half_even_mono)
    then have "(of_int (round_half_even (x * pow2 (52 - expo y))) :: rat)
                 \<le> of_int (round_half_even (y * pow2 (52 - expo y)))"
      by (simp only: of_int_le_iff)
    then show ?thesis
      unfolding rnd_pos_eq [OF assms(1)] rnd_pos_eq [OF y] True
      using pow2_pos [of "expo y - 52"] by (simp only: mult_le_cancel_right_pos)
  next
    case False
    with le have "expo x + 1 \<le> expo y" by simp
    then have "pow2 (expo x + 1) \<le> pow2 (expo y)" by (rule pow2_mono)
    then show ?thesis
      using rnd_pos_bounds(2) [OF assms(1)] rnd_pos_bounds(1) [OF y] by linarith
  qed
qed

lemma rnd_mono:
  assumes "x \<le> y"
  shows "rnd x \<le> rnd y"
proof -
  consider "0 < x" | "x \<le> 0" "0 \<le> y" | "y < 0" using assms by linarith
  then show ?thesis
  proof cases
    case 1 then show ?thesis using assms by (rule rnd_mono_pos)
  next
    case 2
    have "rnd x \<le> 0"
    proof (cases "x = 0")
      case True then show ?thesis by (simp add: rnd_0)
    next
      case False
      with 2 have "0 < - x" by simp
      from rnd_pos [OF this] show ?thesis by (simp add: rnd_minus)
    qed
    moreover have "0 \<le> rnd y"
    proof (cases "y = 0")
      case True then show ?thesis by (simp add: rnd_0)
    next
      case False
      with 2 have "0 < y" by simp
      from rnd_pos [OF this] show ?thesis by simp
    qed
    ultimately show ?thesis by linarith
  next
    case 3
    then have "0 < - y" "- y \<le> - x" using assms by simp_all
    from rnd_mono_pos [OF this] show ?thesis by (simp add: rnd_minus)
  qed
qed

lemma rnd_nonneg: "0 \<le> x \<Longrightarrow> 0 \<le> rnd x"
  using rnd_mono [of 0 x] by (simp add: rnd_0)

lemma rnd_1: "rnd 1 = 1"
  using rnd_of_int [of 1] by simp

subsection \<open>The resampler\<close>

text \<open>
  For a rate below one the step is at least one, the last position of \<^verbatim>\<open>np.arange\<close>
  does not exceed the depth, and so neither the offset nor an index is negative. Then
  the source at 60 frames per second read by a model at 20: the rate is the double
  nearest to one third, and its reciprocal is the double \<open>3\<close>, so every value of the
  computation is an integer or a half and is exact.
\<close>

lemma trunc_nonneg: "0 \<le> x \<Longrightarrow> 0 \<le> trunc x"
  by (simp add: trunc_def)

lemma step_ge_1:
  assumes "0 < sample_rate" "sample_rate < 1"
  shows "1 \<le> fl_div 1 sample_rate"
proof -
  have "1 \<le> 1 / sample_rate" using assms by (simp add: field_simps)
  from rnd_mono [OF this] show ?thesis unfolding fl_div_def rnd_1 .
qed

lemma arange_last_le:
  assumes step: "1 \<le> step" and d: "d < 2 ^ 31" and ne: "arange d step \<noteq> []"
  shows "last (arange d step) \<le> of_nat d"
proof -
  define z where "z = fl_div (of_nat d) step"
  define n where "n = nat \<lceil>z\<rceil>"
  have ar: "arange d step = map (\<lambda>i. fl_mul (of_nat i) step) [0..<n]"
    unfolding arange_def n_def z_def ..
  from ne have n: "0 < n" unfolding ar by simp
  have rd: "rnd (of_nat d) = of_nat d" using d by (intro rnd_of_nat) simp
  have "of_nat d / step \<le> of_nat d"
  proof -
    have "(of_nat d :: rat) * 1 \<le> of_nat d * step" using step by (intro mult_left_mono) simp_all
    then show ?thesis using step by (simp add: field_simps)
  qed
  from rnd_mono [OF this] have zd: "z \<le> of_nat d" unfolding z_def fl_div_def rd .
  have iz: "of_nat (n - 1) < z"
  proof -
    have "0 < \<lceil>z\<rceil>" using n unfolding n_def by (simp only: zero_less_nat_eq)
    then have "int (n - 1) = \<lceil>z\<rceil> - 1" unfolding n_def by linarith
    moreover have "of_int (\<lceil>z\<rceil> - 1) < z" by linarith
    ultimately have "of_int (int (n - 1)) < z" by simp
    then show ?thesis by simp
  qed
  with zd have "(of_nat (n - 1) :: rat) < of_nat d" by linarith
  then have "n - 1 < d" by (simp only: of_nat_less_iff)
  then have ri: "rnd (of_nat (n - 1)) = of_nat (n - 1)" using d by (intro rnd_of_nat) simp
  have "of_nat (n - 1) * step \<le> of_nat d"
  proof (rule ccontr)
    assume "\<not> of_nat (n - 1) * step \<le> of_nat d"
    then have "of_nat d < of_nat (n - 1) * step" by (simp only: not_le)
    moreover have "0 < step" using step by linarith
    ultimately have "of_nat d / step < of_nat (n - 1)" by (simp only: pos_divide_less_eq)
    then have "of_nat d / step \<le> of_nat (n - 1)" by (rule less_imp_le)
    from rnd_mono [OF this] have "z \<le> of_nat (n - 1)" unfolding z_def fl_div_def ri .
    with iz show False by simp
  qed
  from rnd_mono [OF this] have "fl_mul (of_nat (n - 1)) step \<le> of_nat d"
    unfolding fl_mul_def rd .
  moreover have "last (arange d step) = fl_mul (of_nat (n - 1)) step"
    unfolding ar using n by (simp add: last_map last_upt)
  ultimately show ?thesis by simp
qed

lemma offset_nonneg:
  assumes "1 \<le> step" "d < 2 ^ 31" "arange d step \<noteq> []"
  shows "0 \<le> trunc (fl_div (fl_sub (of_nat d) (last (arange d step))) 2)"
proof -
  have "0 \<le> of_nat d - last (arange d step)" using arange_last_le [OF assms] by simp
  then have "0 \<le> fl_sub (of_nat d) (last (arange d step))"
    unfolding fl_sub_def by (rule rnd_nonneg)
  then have "0 \<le> fl_sub (of_nat d) (last (arange d step)) / 2" by simp
  then have "0 \<le> fl_div (fl_sub (of_nat d) (last (arange d step))) 2"
    unfolding fl_div_def by (rule rnd_nonneg)
  then show ?thesis by (rule trunc_nonneg)
qed

lemma take_frames_nonneg:
  assumes "take_frames video idx = Inr fs" and "\<forall>i\<in>set idx. 0 \<le> i"
  shows "fs = map (\<lambda>i. video ! nat i) idx \<and> (\<forall>i\<in>set idx. i < int (length video))"
proof -
  from assms(1) have a: "\<forall>i\<in>set idx. - int (length video) \<le> i \<and> i < int (length video)"
    and f: "fs = map (\<lambda>i. video ! nat (if i < 0 then i + int (length video) else i)) idx"
    by (auto simp: take_frames_def Let_def list_all_iff split: if_splits)
  have "map (\<lambda>i. video ! nat (if i < 0 then i + int (length video) else i)) idx
          = map (\<lambda>i. video ! nat i) idx"
    by (rule map_cong [OF refl]) (use assms(2) in auto)
  with f a show ?thesis by simp
qed

lemma pow2_31: "pow2 31 = 2147483648" by (simp add: pow2_def)
lemma pow2_m23: "pow2 (- 23) = 1 / 8388608" by (simp add: pow2_def)

lemma trunc_of_int: "trunc (of_int m) = m"
  by (simp add: trunc_def)

lemma trunc_half: "0 \<le> m \<Longrightarrow> trunc (of_int m / 2) = m div 2"
  by (simp add: trunc_def floor_divide_of_int_eq [of m 2, simplified])

lemma trunc_half_nat: "trunc (of_nat m / 2) = int (m div 2)"
  using trunc_half [of "int m"] by (simp add: zdiv_int)

lemma step_20_60: "fl_div 1 (fl_div 20 60) = 3"
  by code_simp

lemma rate_20_60: "fl_div 20 60 < 1 \<and> fl_div 20 60 \<noteq> 0"
  by code_simp

lemma ceiling_third:
  assumes "d < 2 ^ 31"
  shows "\<lceil>fl_div (of_nat d) 3\<rceil> = (int d + 2) div 3"
proof -
  define c where "c = (int d + 2) div 3"
  define x :: rat where "x = of_nat d / 3"
  have c: "3 * c - 2 \<le> int d" "int d \<le> 3 * c" unfolding c_def by presburger+
  show ?thesis
  proof (cases "int d = 3 * c")
    case True
    then have "(of_nat d :: rat) = of_int (3 * c)"
      by (metis of_int_of_nat_eq)
    then have "x = of_int c" unfolding x_def by simp
    moreover have "\<bar>c\<bar> < 2 ^ 53" using True assms by simp
    ultimately show ?thesis
      unfolding fl_div_def x_def [symmetric] c_def [symmetric] by (simp add: rnd_of_int)
  next
    case False
    with c have d: "3 * c - 2 \<le> int d" "int d \<le> 3 * c - 1" by linarith+
    have "of_int (3 * c - 2) \<le> (of_int (int d) :: rat)" "(of_int (int d) :: rat) \<le> of_int (3 * c - 1)"
      using d by (simp_all only: of_int_le_iff)
    then have xb: "of_int c - 2 / 3 \<le> x" "x \<le> of_int c - 1 / 3"
      unfolding x_def by (simp_all add: field_simps)
    have "0 \<le> x" unfolding x_def by simp
    moreover have "x < pow2 31"
    proof -
      have "(of_nat d :: rat) < of_nat (2 ^ 31)" using assms by (simp only: of_nat_less_iff)
      then show ?thesis unfolding x_def pow2_31 by simp
    qed
    ultimately have "\<bar>rnd x - x\<bar> \<le> pow2 (31 - 54)" by (intro rnd_err_bound) simp
    then have "\<bar>rnd x - x\<bar> \<le> 1 / 8388608" using pow2_m23 by simp
    with xb have "of_int c - 1 < rnd x" "rnd x \<le> of_int c" by linarith+
    then have "\<lceil>rnd x\<rceil> = c" by (simp add: ceiling_eq_iff)
    then show ?thesis unfolding fl_div_def x_def [symmetric] c_def [symmetric] .
  qed
qed

lemma arange_third:
  assumes "d < 2 ^ 31"
  shows "arange d 3 = map (\<lambda>i. of_nat (3 * i)) [0..<(d + 2) div 3]"
proof -
  have n: "nat \<lceil>fl_div (of_nat d) 3\<rceil> = (d + 2) div 3"
    unfolding ceiling_third [OF assms] by (simp add: nat_div_distrib nat_add_distrib)
  have "fl_mul (of_nat i) 3 = of_nat (3 * i)" if "i < (d + 2) div 3" for i
  proof -
    have "i < 2 ^ 31" using that assms by simp
    then have "\<bar>int (3 * i)\<bar> < 2 ^ 53" by simp
    from rnd_of_int [OF this] show ?thesis
      unfolding fl_mul_def by (simp add: mult.commute)
  qed
  then show ?thesis unfolding arange_def n by simp
qed

lemma sampled_frames_third:
  assumes d: "0 < d" "d < 2 ^ 31"
  shows "sampled_frames d (fl_div 20 60) =
           Inr (map (\<lambda>i. int (3 * i + (d - 3 * ((d + 2) div 3 - 1)) div 2)) [0..<(d + 2) div 3])"
proof -
  define n where "n = (d + 2) div 3"
  define m where "m = d - 3 * (n - 1)"
  have n: "0 < n" "3 * (n - 1) < d" "d \<le> 3 * n" unfolding n_def using d(1) by presburger+
  have m: "0 < m" "m \<le> 3" "d = 3 * (n - 1) + m" unfolding m_def using n by simp_all
  have ar: "arange d (fl_div 1 (fl_div 20 60)) = map (\<lambda>i. of_nat (3 * i)) [0..<n]"
    unfolding step_20_60 n_def by (rule arange_third [OF d(2)])
  have ne: "map (\<lambda>i. (of_nat (3 * i) :: rat)) [0..<n] \<noteq> []" using n(1) by simp
  have la: "last (map (\<lambda>i. (of_nat (3 * i) :: rat)) [0..<n]) = of_nat (3 * (n - 1))"
    using n(1) by (simp add: last_map last_upt)
  have "(of_nat d :: rat) - of_nat (3 * (n - 1)) = of_int (int m)"
    using m(3) by simp
  moreover have "\<bar>int m\<bar> < 2 ^ 53" using m(2) by simp
  ultimately have sub: "fl_sub (of_nat d) (of_nat (3 * (n - 1))) = of_int (int m)"
    unfolding fl_sub_def by (simp only: rnd_of_int)
  have half: "fl_div (of_int (int m)) 2 = of_int (int m) / 2"
    unfolding fl_div_def using m(2) by (intro rnd_half) simp
  have off: "trunc (fl_div (fl_sub (of_nat d) (of_nat (3 * (n - 1)))) 2) = int (m div 2)"
    unfolding sub half by (simp add: trunc_half_nat)
  have el: "trunc (fl_add (of_nat (3 * i)) (of_int (int (m div 2)))) = int (3 * i + m div 2)"
    if "i < n" for i
  proof -
    have "3 * i + m div 2 < 2 ^ 53" using that n(2) d(2) m(2) by simp
    then have "\<bar>int (3 * i + m div 2)\<bar> < 2 ^ 53" by simp
    from rnd_of_int [OF this] show ?thesis
      unfolding fl_add_def by (simp add: trunc_of_int [of "int (3 * i + m div 2)", simplified])
  qed
  have mp: "map (\<lambda>x. trunc (fl_add x (of_int (int (m div 2)))))
               (map (\<lambda>i. of_nat (3 * i)) [0..<n])
            = map (\<lambda>i. int (3 * i + m div 2)) [0..<n]"
    unfolding map_map comp_def by (rule map_cong [OF refl]) (simp only: el atLeastLessThan_iff set_upt)
  have "sampled_frames d (fl_div 20 60) = Inr (map (\<lambda>i. int (3 * i + m div 2)) [0..<n])"
    unfolding sampled_frames_def Let_def ar la off mp
    using ne rate_20_60 by (simp only: if_False)
  then show ?thesis unfolding m_def n_def .
qed

lemma take_frames_nat:
  assumes "\<forall>i\<in>set idx. i < length video"
  shows "take_frames video (map int idx) = Inr (map (\<lambda>i. video ! i) idx)"
  using assms by (simp add: take_frames_def list_all_iff comp_def)

text \<open>
  C9. For every video and every \<open>sample_rate \<ge> 1\<close> (a source frame rate at or below
  the rate the model runs at), \<open>uniform_frame_sample\<close> returns the video unchanged: no
  frame is dropped, duplicated or added.
\<close>

theorem uniform_frame_sample_identity:
  "1 \<le> sample_rate \<Longrightarrow> uniform_frame_sample video sample_rate = Inr video"
  by (simp add: uniform_frame_sample_def)

theorem uniform_frame_sample_identity_witness:
  "(1::rat) \<le> fl_div 30 20
   \<and> uniform_frame_sample [''f0'', ''f1'', ''f2''] (fl_div 30 20) = Inr [''f0'', ''f1'', ''f2'']"
proof -
  have h: "(1::rat) \<le> fl_div 30 20" by code_simp
  show ?thesis using h uniform_frame_sample_identity [OF h] by simp
qed

text \<open>
  C3. Resampling a source at 60 frames per second to a model rate of 20: for every
  video of at least one frame (and fewer than \<open>2 ^ 31\<close>, the range of the
  \<^verbatim>\<open>int32\<close> indices), the frames selected are those at \<open>3 * i + offset\<close> for
  \<open>i = 0, \<dots>, n - 1\<close>, so consecutive selected indices differ by exactly 3; the offset
  is \<open>int((depth - last) / 2)\<close> for the last unshifted index \<open>last = 3 * (n - 1)\<close>, and
  it is added to every index.
\<close>

theorem resample_60_to_20_every_third:
  assumes "video \<noteq> []" and "length video < 2 ^ 31"
  shows "let depth = length video; n = (depth + 2) div 3;
             last_unshifted = 3 * (n - 1); offset = (depth - last_unshifted) div 2
         in sampled_frames depth (fl_div 20 60) = Inr (map (\<lambda>i. int (3 * i + offset)) [0..<n])
          \<and> uniform_frame_sample video (fl_div 20 60)
              = Inr (map (\<lambda>i. video ! (3 * i + offset)) [0..<n])"
proof -
  define d where "d = length video"
  define n where "n = (d + 2) div 3"
  define off where "off = (d - 3 * (n - 1)) div 2"
  have d: "0 < d" "d < 2 ^ 31" unfolding d_def using assms by simp_all
  have n: "0 < n" "3 * (n - 1) < d" unfolding n_def using d(1) by presburger+
  have sf: "sampled_frames d (fl_div 20 60) = Inr (map int (map (\<lambda>i. 3 * i + off) [0..<n]))"
    using sampled_frames_third [OF d] unfolding off_def n_def by (simp add: comp_def)
  have "3 * i + off < d" if "i < n" for i
    using that n unfolding off_def by linarith
  then have "\<forall>i\<in>set (map (\<lambda>i. 3 * i + off) [0..<n]). i < length video"
    unfolding d_def by auto
  from take_frames_nat [OF this]
  have "uniform_frame_sample video (fl_div 20 60) = Inr (map (\<lambda>i. video ! (3 * i + off)) [0..<n])"
    unfolding uniform_frame_sample_def using rate_20_60 sf [unfolded d_def]
    by (simp add: comp_def)
  with sf show ?thesis
    unfolding Let_def d_def [symmetric] n_def [symmetric] off_def [symmetric]
    by (simp add: comp_def)
qed

theorem resample_60_to_20_every_third_witness:
  "[0, 1, 2, 3, 4, 5, 6, 7, 8, 9, 10 :: nat] \<noteq> []
   \<and> length [0, 1, 2, 3, 4, 5, 6, 7, 8, 9, 10 :: nat] < 2 ^ 31
   \<and> sampled_frames 11 (fl_div 20 60) = Inr [1, 4, 7, 10]
   \<and> uniform_frame_sample [0, 1, 2, 3, 4, 5, 6, 7, 8, 9, 10 :: nat] (fl_div 20 60)
       = Inr [1, 4, 7, 10]"
proof -
  have h1: "[0, 1, 2, 3, 4, 5, 6, 7, 8, 9, 10 :: nat] \<noteq> []" by simp
  have h2: "length [0, 1, 2, 3, 4, 5, 6, 7, 8, 9, 10 :: nat] < 2 ^ 31" by simp
  have l: "length [0, 1, 2, 3, 4, 5, 6, 7, 8, 9, 10 :: nat] = 11" by simp
  have u: "[0..<4] = [0, 1, 2, 3]" by (simp add: upt_rec)
  have "sampled_frames 11 (fl_div 20 60) = Inr [1, 4, 7, 10]
      \<and> uniform_frame_sample [0, 1, 2, 3, 4, 5, 6, 7, 8, 9, 10 :: nat] (fl_div 20 60)
          = Inr [1, 4, 7, 10]"
    using resample_60_to_20_every_third [OF h1 h2] unfolding l by (simp add: Let_def u)
  with h1 h2 show ?thesis by (simp only: simp_thms)
qed

text \<open>
  C2, as the code has it. For a rate \<open>0 < sample_rate < 1\<close> and a video of fewer than
  \<open>2 ^ 31\<close> frames on which the resampler returns, the frames returned are those at
  the indices \<open>int(i * step + offset)\<close> for \<open>i = 0, \<dots>, n - 1\<close>: the positions
  \<open>i * step\<close> with \<open>step = 1. / sample_rate\<close> are shifted by the offset and then
  truncated, not rounded to the nearest integer. The offset is
  \<open>int((depth - last) / 2)\<close> for the last unshifted position \<open>last = (n - 1) * step\<close>;
  it is not negative, and every index lies in the video. All arithmetic is the
  double-precision arithmetic of the code.
\<close>

theorem uniform_frame_sample_truncates:
  assumes "0 < sample_rate" and "sample_rate < 1" and "length video < 2 ^ 31"
    and "uniform_frame_sample video sample_rate = Inr fs"
  shows "let depth = length video; step = fl_div 1 sample_rate;
             n = nat \<lceil>fl_div (of_nat depth) step\<rceil>;
             offset = trunc (fl_div (fl_sub (of_nat depth) (fl_mul (of_nat (n - 1)) step)) 2);
             index = (\<lambda>i. trunc (fl_add (fl_mul (of_nat i) step) (of_int offset)))
         in 0 < n \<and> 0 \<le> offset
          \<and> fs = map (\<lambda>i. video ! nat (index i)) [0..<n]
          \<and> list_all (\<lambda>i. 0 \<le> index i \<and> index i < int depth) [0..<n]"
proof -
  define d where "d = length video"
  define step where "step = fl_div 1 sample_rate"
  define n where "n = nat \<lceil>fl_div (of_nat d) step\<rceil>"
  define offset where "offset = trunc (fl_div (fl_sub (of_nat d) (fl_mul (of_nat (n - 1)) step)) 2)"
  define index where "index = (\<lambda>i. trunc (fl_add (fl_mul (of_nat i) step) (of_int offset)))"
  have step: "1 \<le> step" unfolding step_def by (rule step_ge_1 [OF assms(1,2)])
  have d: "d < 2 ^ 31" unfolding d_def by (rule assms(3))
  have ar: "arange d step = map (\<lambda>i. fl_mul (of_nat i) step) [0..<n]"
    unfolding arange_def n_def ..
  from assms(4) obtain idx where sf: "sampled_frames d sample_rate = Inr idx"
    and tf: "take_frames video idx = Inr fs"
    unfolding uniform_frame_sample_def d_def using assms(2) by (auto split: sum.splits)
  from sf have ne: "arange d step \<noteq> []"
    unfolding sampled_frames_def Let_def step_def by (auto split: if_splits)
  then have n: "0 < n" unfolding ar by simp
  have la: "last (arange d step) = fl_mul (of_nat (n - 1)) step"
    unfolding ar using n by (simp add: last_map last_upt)
  have off: "0 \<le> offset"
    unfolding offset_def la [symmetric] by (rule offset_nonneg [OF step d ne])
  have idx: "idx = map index [0..<n]"
    using sf ne assms(1) unfolding sampled_frames_def Let_def step_def [symmetric] la
    unfolding ar index_def offset_def by (simp add: comp_def)
  have nonneg: "0 \<le> index i" for i
  proof -
    have "0 \<le> fl_mul (of_nat i) step" unfolding fl_mul_def using step by (intro rnd_nonneg) simp
    then have "0 \<le> fl_add (fl_mul (of_nat i) step) (of_int offset)"
      unfolding fl_add_def using off by (intro rnd_nonneg) simp
    then show ?thesis unfolding index_def by (rule trunc_nonneg)
  qed
  then have "\<forall>i\<in>set idx. 0 \<le> i" unfolding idx by auto
  from take_frames_nonneg [OF tf this]
  have fs: "fs = map (\<lambda>i. video ! nat (index i)) [0..<n]"
    and ub: "\<forall>i\<in>set [0..<n]. index i < int d"
    unfolding idx d_def by (simp_all add: comp_def)
  have "list_all (\<lambda>i. 0 \<le> index i \<and> index i < int d) [0..<n]"
    using nonneg ub by (simp add: list_all_iff)
  with n off fs show ?thesis
    unfolding Let_def d_def [symmetric] step_def [symmetric] n_def [symmetric]
      offset_def [symmetric]
    unfolding index_def by simp
qed

theorem uniform_frame_sample_truncates_witness:
  "0 < fl_div 16 30 \<and> fl_div 16 30 < 1
   \<and> length [0, 1, 2, 3, 4, 5, 6 :: nat] < 2 ^ 31
   \<and> uniform_frame_sample [0, 1, 2, 3, 4, 5, 6 :: nat] (fl_div 16 30) = Inr [0, 1, 3, 5]
   \<and> (let depth = length [0, 1, 2, 3, 4, 5, 6 :: nat]; step = fl_div 1 (fl_div 16 30);
           n = nat \<lceil>fl_div (of_nat depth) step\<rceil>;
           offset = trunc (fl_div (fl_sub (of_nat depth) (fl_mul (of_nat (n - 1)) step)) 2);
           index = (\<lambda>i. trunc (fl_add (fl_mul (of_nat i) step) (of_int offset)))
       in 0 < n \<and> 0 \<le> offset
        \<and> [0, 1, 3, 5] = map (\<lambda>i. [0, 1, 2, 3, 4, 5, 6 :: nat] ! nat (index i)) [0..<n]
        \<and> list_all (\<lambda>i. 0 \<le> index i \<and> index i < int depth) [0..<n])"
proof -
  have h1: "0 < fl_div 16 30" by code_simp
  have h2: "fl_div 16 30 < 1" by code_simp
  have h3: "length [0, 1, 2, 3, 4, 5, 6 :: nat] < 2 ^ 31" by simp
  have h4: "uniform_frame_sample [0, 1, 2, 3, 4, 5, 6 :: nat] (fl_div 16 30) = Inr [0, 1, 3, 5]"
    by code_simp
  note c = uniform_frame_sample_truncates [OF h1 h2 h3 h4]
  from h1 h2 h3 h4 c show ?thesis by (intro conjI)
qed

text \<open>
  C2, as the claim states it, fails: at a rate of \<open>0.8\<close> (a model at 16 frames per
  second on a source at 20) and four frames the positions are \<open>0, 1.25, 2.5, 3.75\<close>
  and the code selects the indices \<open>0, 1, 2, 3\<close>, all four frames. Rounding sends
  \<open>3.75\<close> to \<open>4\<close> and \<open>0\<close> to \<open>0\<close>, so no offset makes \<open>round(i / ratio) + offset\<close>
  agree with the code at both \<open>i = 0\<close> and \<open>i = 3\<close>.
\<close>

theorem round_index_counterexample:
  "sampled_frames 4 (fl_div 4 5) = Inr [0, 1, 2, 3]
   \<and> uniform_frame_sample [''f0'', ''f1'', ''f2'', ''f3''] (fl_div 4 5)
       = Inr [''f0'', ''f1'', ''f2'', ''f3'']
   \<and> \<not> (\<exists>offset. [0, 1, 2, 3] = map (spec_round_index (fl_div 4 5) offset) [0, 1, 2, 3])"
proof -
  have a: "sampled_frames 4 (fl_div 4 5) = Inr [0, 1, 2, 3]" by code_simp
  have b: "uniform_frame_sample [''f0'', ''f1'', ''f2'', ''f3''] (fl_div 4 5)
             = Inr [''f0'', ''f1'', ''f2'', ''f3'']" by code_simp
  have r0: "round (of_nat 0 / fl_div 4 5) = 0" by simp
  have r3: "round (of_nat 3 / fl_div 4 5) = 4" by code_simp
  have c: "\<not> (\<exists>offset. [0, 1, 2, 3] = map (spec_round_index (fl_div 4 5) offset) [0, 1, 2, 3])"
  proof
    assume "\<exists>offset. [0, 1, 2, 3] = map (spec_round_index (fl_div 4 5) offset) [0, 1, 2, 3]"
    then obtain offset where
      "0 = spec_round_index (fl_div 4 5) offset 0" "3 = spec_round_index (fl_div 4 5) offset 3"
      by auto
    then show False unfolding spec_round_index_def r0 r3 by simp
  qed
  from a b c show ?thesis by (intro conjI)
qed

lemma sample_25_90: "uniform_frame_sample [0..<18] (fl_div 25 90) = Inl IndexError"
  by code_simp

lemma indices_25_90: "sampled_frames 18 (fl_div 25 90) = Inr [0, 3, 7, 10, 14, 18]"
  by code_simp

lemma rate_25_90: "0 < fl_div 25 90 \<and> fl_div 25 90 < 1"
  by code_simp

text \<open>
  C8 fails on the code. For a video of 18 frames at 90 frames per second and a model
  at 25, \<open>step = 1. / (25 / 90)\<close> is the double \<open>3.5999999999999996\<close>;
  \<open>18 / step\<close> rounds to \<open>5.000000000000001\<close>, so \<^verbatim>\<open>np.arange\<close> has six elements, and the
  last, \<open>5 * step\<close>, rounds to \<open>18.0\<close>. The offset is 0 and the index 18 is out of
  range for 18 frames: \<^verbatim>\<open>video[sampled_frames]\<close> raises \<^verbatim>\<open>IndexError\<close>.
\<close>

theorem uniform_frame_sample_index_failure:
  "0 < fl_div 25 90 \<and> fl_div 25 90 < 1 \<and> length [0..<18] = 18
   \<and> sampled_frames 18 (fl_div 25 90) = Inr [0, 3, 7, 10, 14, 18]
   \<and> uniform_frame_sample [0..<18] (fl_div 25 90) = Inl IndexError"
  using sample_25_90 indices_25_90 rate_25_90 by simp

subsection \<open>Feature extraction\<close>

text \<open>
  The frames saved, the padded stream and the warm-up call of \<^verbatim>\<open>compute_features\<close>.
\<close>

lemma frames_to_add_47: "frames_to_add = 47"
  by (simp add: frames_to_add_def MODEL_TEMPORAL_STRIDE_def MODEL_TEMPORAL_DEPENDENCY_def)

lemma filter_stride_upt:
  "filter (\<lambda>e. e mod 4 = 0) [0..<n] = map (\<lambda>e. 4 * e) [0..<(n + 3) div 4]"
proof (induction n)
  case 0
  show ?case by simp
next
  case (Suc n)
  show ?case
  proof (cases "n mod 4 = 0")
    case True
    then have "(Suc n + 3) div 4 = Suc ((n + 3) div 4)" "4 * ((n + 3) div 4) = n" by presburger+
    with Suc True show ?thesis by simp
  next
    case False
    then have "(Suc n + 3) div 4 = (n + 3) div 4" by presburger
    with Suc False show ?thesis by simp
  qed
qed

lemma filter_enumerate:
  "map snd (filter (\<lambda>(e, frame). P e) (enumerate n xs))
     = map (\<lambda>e. xs ! (e - n)) (filter P [n..<n + length xs])"
proof (induction xs arbitrary: n)
  case Nil
  show ?case by simp
next
  case (Cons x xs)
  have "map (\<lambda>e. (x # xs) ! (e - n)) (filter P [Suc n..<Suc n + length xs])
          = map (\<lambda>e. xs ! (e - Suc n)) (filter P [Suc n..<Suc n + length xs])"
    by (rule map_cong [OF refl]) (auto simp: nth_Cons')
  moreover have "[n..<n + length (x # xs)] = n # [Suc n..<Suc n + length xs]"
    using upt_conv_Cons [of n "n + length (x # xs)"] by (simp del: upt_Suc)
  ultimately show ?case using Cons [of "Suc n"] by (simp del: upt_Suc)
qed

lemma frames_to_save_padded:
  "frames_to_save (replicate frames_to_add f @ xs)
     = map (\<lambda>e. xs ! (4 * e)) [0..<(length xs + 3) div 4]"
proof -
  have "frames_to_save (replicate frames_to_add f @ xs)
          = map (\<lambda>e. xs ! e) (filter (\<lambda>e. e mod 4 = 0) [0..<length xs])"
    unfolding frames_to_save_def MODEL_TEMPORAL_STRIDE_def
    using filter_enumerate [of "\<lambda>e. e mod 4 = 0" 0 xs] by simp
  then show ?thesis unfolding filter_stride_upt by (simp add: comp_def)
qed

lemma pad_edge_nonempty:
  "frames \<noteq> [] \<Longrightarrow> pad_edge n frames = Inr (replicate n (hd frames) @ frames)"
  by (cases frames) (simp_all add: pad_edge_def)

lemma sampled_nonempty:
  assumes "video \<noteq> []" and "uniform_frame_sample video sample_rate = Inr frames"
  shows "frames \<noteq> []"
proof (cases "sample_rate < 1")
  case False
  with assms show ?thesis by (simp add: uniform_frame_sample_def)
next
  case True
  with assms(2) obtain idx where "sampled_frames (length video) sample_rate = Inr idx"
    and tf: "take_frames video idx = Inr frames"
    by (auto simp: uniform_frame_sample_def split: sum.splits)
  then have "idx \<noteq> []" by (auto simp: sampled_frames_def Let_def split: if_splits)
  with tf show ?thesis by (auto simp: take_frames_def Let_def split: if_splits)
qed

text \<open>The warm-up call and the call on the rest, for the padded stream.\<close>

lemma warmup_clip:
  assumes "frames \<noteq> []"
  shows "take (frames_to_add + 1) (replicate frames_to_add (hd frames) @ frames)
           = replicate frames_to_add (hd frames) @ take 1 frames"
    and "drop (frames_to_add + 1) (replicate frames_to_add (hd frames) @ frames) = drop 1 frames"
  by simp_all

lemma engine_infer_warmup:
  assumes "length clip = frames_to_add + 1"
  shows "py_slice_from (fst (engine_infer net seen clip)) (- 1) = [net (seen @ clip)]"
proof -
  have l: "length clip = 48" using assms by (simp add: frames_to_add_47)
  have "drop 11 (map (\<lambda>j. net (seen @ take (4 * (j + 1)) clip)) [0..<12])
          = map (\<lambda>j. net (seen @ take (4 * (j + 1)) clip)) [11..<12]"
    by (simp only: drop_map drop_upt) simp
  also have "\<dots> = [net (seen @ clip)]" using l by (simp add: upt_rec [of 11])
  finally show ?thesis
    by (simp add: engine_infer_def MODEL_TEMPORAL_STRIDE_def l py_slice_from_def slice_bound_def)
qed

lemma engine_infer_outputs:
  "fst (engine_infer net seen clip)
     = map (\<lambda>j. net (seen @ take (4 * (j + 1)) clip)) [0..<length clip div 4]"
  by (simp add: engine_infer_def MODEL_TEMPORAL_STRIDE_def)

lemma engine_infer_state: "snd (engine_infer net seen clip) = seen @ clip"
  by (simp add: engine_infer_def)

lemma compute_features_sampled:
  assumes "video_fps \<noteq> 0" and "uniform_frame_sample video (fl_div engine_fps video_fps) = Inr sampled"
    and "sampled \<noteq> []"
  shows "compute_features infer st video engine_fps video_fps n save =
           (let frames = replicate frames_to_add (hd sampled) @ sampled;
                (pre_features, st1) = infer st (replicate frames_to_add (hd sampled) @ take 1 sampled);
                (predictions, st2) = infer st1 (drop 1 sampled)
            in Inr \<lparr> features = py_slice_from pre_features (- n) @ predictions,
                     saved_frames = (if save then Some (frames_to_save frames) else None),
                     engine_state = st2 \<rparr>)"
  using assms warmup_clip [OF assms(3)]
  by (simp add: compute_features_def pad_edge_nonempty Let_def)

lemma compute_features_engine:
  assumes "video_fps \<noteq> 0" and "uniform_frame_sample video (fl_div engine_fps video_fps) = Inr sampled"
    and "sampled \<noteq> []"
  shows "compute_features (engine_infer net) seen video engine_fps video_fps 1 save =
           Inr \<lparr> features =
                   map (\<lambda>e. net (seen @ replicate frames_to_add (hd sampled) @ take (4 * e + 1) sampled))
                     [0..<(length sampled + 3) div 4],
                 saved_frames =
                   (if save then Some (map (\<lambda>e. sampled ! (4 * e)) [0..<(length sampled + 3) div 4])
                    else None),
                 engine_state = seen @ replicate frames_to_add (hd sampled) @ sampled \<rparr>"
proof -
  define pad where "pad = replicate frames_to_add (hd sampled)"
  define c1 where "c1 = pad @ take 1 sampled"
  define c2 where "c2 = drop 1 sampled"
  have l1: "length c1 = frames_to_add + 1" unfolding c1_def pad_def using assms(3)
    by (cases sampled) simp_all
  have s: "sampled = take 1 sampled @ c2" unfolding c2_def by simp
  have pre: "py_slice_from (fst (engine_infer net seen c1)) (- 1) = [net (seen @ pad @ take 1 sampled)]"
    using engine_infer_warmup [OF l1, of net seen] unfolding c1_def by simp
  have t: "c1 @ take (4 * (j + 1)) c2 = pad @ take (4 * (j + 1) + 1) sampled" for j
  proof -
    obtain a list where "sampled = a # list" using assms(3) by (cases sampled) auto
    moreover have "4 * (j + 1) + 1 = Suc (4 * (j + 1))" by simp
    ultimately show ?thesis unfolding c1_def c2_def by (simp only: take_Suc_Cons) simp
  qed
  have rest: "fst (engine_infer net (seen @ c1) c2)
                = map (\<lambda>j. net (seen @ pad @ take (4 * (j + 1) + 1) sampled)) [0..<length c2 div 4]"
    unfolding engine_infer_outputs by (rule map_cong [OF refl]) (simp only: append_assoc t)
  have n: "(length sampled + 3) div 4 = Suc (length c2 div 4)"
    unfolding c2_def using assms(3) by (cases sampled) simp_all
  have "[net (seen @ pad @ take 1 sampled)]
          @ map (\<lambda>j. net (seen @ pad @ take (4 * (j + 1) + 1) sampled)) [0..<length c2 div 4]
        = map (\<lambda>e. net (seen @ pad @ take (4 * e + 1) sampled)) [0..<Suc (length c2 div 4)]"
    unfolding upt_conv_Cons [OF zero_less_Suc] map_Suc_upt [symmetric] by (simp add: comp_def)
  then have f: "py_slice_from (fst (engine_infer net seen c1)) (- 1) @ fst (engine_infer net (seen @ c1) c2)
                  = map (\<lambda>e. net (seen @ pad @ take (4 * e + 1) sampled)) [0..<(length sampled + 3) div 4]"
    unfolding pre rest n .
  have st: "snd (engine_infer net (snd (engine_infer net seen c1)) c2) = seen @ pad @ sampled"
    unfolding engine_infer_state c1_def using s by simp
  show ?thesis
    unfolding compute_features_sampled [OF assms] Let_def case_prod_beta
    unfolding pad_def [symmetric] c1_def [symmetric] c2_def [symmetric]
    using f st
    by (simp add: engine_infer_state frames_to_save_padded [of "hd sampled" sampled, folded pad_def])
qed

lemma sample_16_16:
  "uniform_frame_sample [0, 1, 2, 3, 4, 5, 6, 7, 8 :: nat] (fl_div 16 16)
     = Inr [0, 1, 2, 3, 4, 5, 6, 7, 8]"
proof -
  have "fl_div 16 16 = 1" by code_simp
  then show ?thesis by (simp add: uniform_frame_sample_def)
qed

lemma sample_16_30:
  "uniform_frame_sample [0, 1, 2, 3, 4, 5, 6 :: nat] (fl_div 16 30) = Inr [0, 1, 3, 5]"
  by code_simp

text \<open>
  The same for any \<^verbatim>\<open>num_timesteps\<close> of at least one: the last
  \<open>k = min(num_timesteps, 12)\<close> of the twelve warm-up outputs are kept, in front of the
  outputs of the second call.
\<close>

lemma upt_split: "[0..<k + m] = [0..<k] @ map (\<lambda>j. k + j) [0..<m]"
proof -
  have "map (\<lambda>j. k + j) [0..<m] = [k..<k + m]"
    using map_add_upt [of k m] by (simp add: add.commute)
  then show ?thesis using upt_add_eq_append [of 0 k m] by simp
qed

lemma warmup_outputs:
  assumes l1: "length c1 = 48"
  shows "fst (engine_infer net seen c1)
           = map (\<lambda>j. net (seen @ take (4 * (j + 1)) (c1 @ c2))) [0..<12]"
proof -
  have "take (4 * (j + 1)) c1 = take (4 * (j + 1)) (c1 @ c2)" if "j < 12" for j
    using that l1 by simp
  then have "map (\<lambda>j. net (seen @ take (4 * (j + 1)) c1)) [0..<12]
           = map (\<lambda>j. net (seen @ take (4 * (j + 1)) (c1 @ c2))) [0..<12]"
    by (intro map_cong [OF refl]) (simp only: set_upt atLeastLessThan_iff)
  then show ?thesis unfolding engine_infer_outputs l1 by simp
qed

lemma kept_warmup_outputs:
  assumes "1 \<le> k" "k \<le> 12"
  shows "drop (12 - k) (map g [0..<12]) = map (\<lambda>e. g (12 - k + e)) [0..<k]"
proof -
  have "[12 - k..<12] = map (\<lambda>e. 12 - k + e) [0..<k]"
    using assms map_add_upt [of "12 - k" k] by (simp add: add.commute)
  moreover have "drop (12 - k) (map g [0..<12]) = map g [12 - k..<12]"
    by (simp only: drop_map drop_upt) simp
  ultimately show ?thesis by (simp only: map_map comp_def)
qed

lemma compute_features_engine_steps:
  assumes "video_fps \<noteq> 0" and "uniform_frame_sample video (fl_div engine_fps video_fps) = Inr sampled"
    and "sampled \<noteq> []" and "1 \<le> n"
  shows "compute_features (engine_infer net) seen video engine_fps video_fps n save =
           Inr \<lparr> features =
                   map (\<lambda>e. net (seen @ take (4 * (13 - min (nat n) 12 + e))
                                          (replicate frames_to_add (hd sampled) @ sampled)))
                     [0..<min (nat n) 12 + (length sampled - 1) div 4],
                 saved_frames =
                   (if save then Some (map (\<lambda>e. sampled ! (4 * e)) [0..<(length sampled + 3) div 4])
                    else None),
                 engine_state = seen @ replicate frames_to_add (hd sampled) @ sampled \<rparr>"
proof -
  define pad where "pad = replicate frames_to_add (hd sampled)"
  define c1 where "c1 = pad @ take 1 sampled"
  define c2 where "c2 = drop 1 sampled"
  define k where "k = min (nat n) 12"
  define f where "f = (\<lambda>e. net (seen @ take (4 * (13 - k + e)) (c1 @ c2)))"
  have k: "1 \<le> k" "k \<le> 12" unfolding k_def using assms(4) by auto
  have l1: "length c1 = 48" unfolding c1_def pad_def using assms(3)
    by (cases sampled) (simp_all add: frames_to_add_47)
  have ps: "pad @ sampled = c1 @ c2" unfolding c1_def c2_def by simp
  have sb: "slice_bound 12 (- n) = 12 - k"
    unfolding slice_bound_def k_def using assms(4) by auto
  have "py_slice_from (fst (engine_infer net seen c1)) (- n)
          = drop (12 - k) (map (\<lambda>j. net (seen @ take (4 * (j + 1)) (c1 @ c2))) [0..<12])"
    unfolding warmup_outputs [OF l1, of net seen c2] py_slice_from_def by (simp add: sb)
  also have "\<dots> = map (\<lambda>e. net (seen @ take (4 * (12 - k + e + 1)) (c1 @ c2))) [0..<k]"
    by (rule kept_warmup_outputs [OF k])
  also have "\<dots> = map f [0..<k]"
  proof -
    have "12 - k + e + 1 = 13 - k + e" for e using k by arith
    then show ?thesis unfolding f_def by (simp only:)
  qed
  finally have a: "py_slice_from (fst (engine_infer net seen c1)) (- n) = map f [0..<k]" .
  have b: "fst (engine_infer net (seen @ c1) c2) = map (\<lambda>j. f (k + j)) [0..<length c2 div 4]"
  proof -
    have "(seen @ c1) @ take (4 * (j + 1)) c2 = seen @ take (4 * (13 - k + (k + j))) (c1 @ c2)" for j
    proof -
      have "13 - k + (k + j) = 12 + (j + 1)" using k by arith
      then have e: "4 * (13 - k + (k + j)) = 48 + 4 * (j + 1)" by simp
      show ?thesis unfolding e by (simp add: l1)
    qed
    then show ?thesis unfolding engine_infer_outputs f_def by (simp only:)
  qed
  have n: "length c2 = length sampled - 1" unfolding c2_def by simp
  have fe: "py_slice_from (fst (engine_infer net seen c1)) (- n) @ fst (engine_infer net (seen @ c1) c2)
              = map f [0..<k + (length sampled - 1) div 4]"
    unfolding a b n upt_split [of k] by (simp only: map_append map_map comp_def)
  have st: "snd (engine_infer net (snd (engine_infer net seen c1)) c2) = seen @ pad @ sampled"
    unfolding engine_infer_state ps by simp
  have sv: "frames_to_save (pad @ sampled) = map (\<lambda>e. sampled ! (4 * e)) [0..<(length sampled + 3) div 4]"
    unfolding pad_def by (rule frames_to_save_padded)
  have "compute_features (engine_infer net) seen video engine_fps video_fps n save =
          Inr \<lparr> features = map f [0..<k + (length sampled - 1) div 4],
                saved_frames =
                  (if save then Some (map (\<lambda>e. sampled ! (4 * e)) [0..<(length sampled + 3) div 4])
                   else None),
                engine_state = seen @ pad @ sampled \<rparr>"
    unfolding compute_features_sampled [OF assms(1-3)] Let_def case_prod_beta
    unfolding pad_def [symmetric] c1_def [symmetric] c2_def [symmetric]
    unfolding fe sv engine_infer_state by (simp add: ps)
  then show ?thesis unfolding f_def ps [symmetric] k_def pad_def .
qed

lemma rate_16_16: "fl_div 16 16 = 1"
  by code_simp

lemma sample_same_rate: "uniform_frame_sample video (fl_div 16 16) = Inr video"
  by (simp add: rate_16_16 uniform_frame_sample_def)

text \<open>
  C1. Warm-up with \<open>R = 45\<close> and \<open>S = 4\<close>, for a non-empty video whose resampling
  returns the stream \<open>sampled\<close>, and \<^verbatim>\<open>num_timesteps = 1\<close>. The stream fed to the model
  is \<open>sampled\<close> with 47 copies of its first frame in front. The first feature
  reported is the output for the window that ends at position \<open>frames_to_add\<close> of the
  padded stream: the 47 copies followed by the first real frame, which is its right
  edge.
\<close>

theorem first_feature_right_edge:
  assumes "video \<noteq> []" and "video_fps \<noteq> 0"
    and "uniform_frame_sample video (fl_div engine_fps video_fps) = Inr sampled"
  shows "let padded = replicate frames_to_add (hd sampled) @ sampled
         in \<exists>r. compute_features (engine_infer net) seen video engine_fps video_fps 1 save = Inr r
              \<and> engine_state r = seen @ padded
              \<and> features r \<noteq> []
              \<and> features r ! 0 = net (seen @ take (frames_to_add + 1) padded)
              \<and> take (frames_to_add + 1) padded = replicate frames_to_add (hd sampled) @ [sampled ! 0]
              \<and> frames_to_add = 47"
proof -
  have ne: "sampled \<noteq> []" by (rule sampled_nonempty [OF assms(1,3)])
  then have n: "0 < (length sampled + 3) div 4" by (cases sampled) simp_all
  have t: "take (frames_to_add + 1) (replicate frames_to_add (hd sampled) @ sampled)
             = replicate frames_to_add (hd sampled) @ [sampled ! 0]"
    using ne by (cases sampled) simp_all
  have "map (\<lambda>e. net (seen @ replicate frames_to_add (hd sampled) @ take (4 * e + 1) sampled))
          [0..<(length sampled + 3) div 4] ! 0
        = net (seen @ replicate frames_to_add (hd sampled) @ take 1 sampled)"
    using n by (simp only: nth_map length_upt diff_zero nth_upt) simp
  moreover have "take 1 sampled = [sampled ! 0]" using ne by (cases sampled) simp_all
  ultimately show ?thesis
    unfolding Let_def t compute_features_engine [OF assms(2,3) ne]
    using n by (simp add: frames_to_add_47)
qed

theorem first_feature_right_edge_witness:
  "[0, 1, 2, 3, 4, 5, 6 :: nat] \<noteq> [] \<and> (30 :: rat) \<noteq> 0
   \<and> uniform_frame_sample [0, 1, 2, 3, 4, 5, 6 :: nat] (fl_div 16 30) = Inr [0, 1, 3, 5]
   \<and> (let padded = replicate frames_to_add (hd [0, 1, 3, 5 :: nat]) @ [0, 1, 3, 5]
       in \<exists>r. compute_features (engine_infer length) [] [0, 1, 2, 3, 4, 5, 6] 16 30 1 True = Inr r
            \<and> engine_state r = [] @ padded
            \<and> features r \<noteq> []
            \<and> features r ! 0 = length ([] @ take (frames_to_add + 1) padded)
            \<and> take (frames_to_add + 1) padded = replicate frames_to_add (hd [0, 1, 3, 5]) @ [[0, 1, 3, 5] ! 0]
            \<and> frames_to_add = 47)"
proof -
  have h1: "[0, 1, 2, 3, 4, 5, 6 :: nat] \<noteq> []" by simp
  have h2: "(30 :: rat) \<noteq> 0" by simp
  note c = first_feature_right_edge [OF h1 h2 sample_16_30, of length "[]" True]
  from h1 h2 sample_16_30 c show ?thesis by (intro conjI)
qed

text \<open>
  C7, as the code has it. For a non-empty video whose resampling returns the stream
  \<open>sampled\<close>, frames saved, and \<^verbatim>\<open>num_timesteps\<close> \<open>n \<ge> 1\<close>, of which
  \<open>k = min(n, 12)\<close> warm-up steps are kept. Step \<open>e\<close> is the output for the window that
  ends after \<open>S * (13 - k + e)\<close> frames of the padded stream, so the right edges of
  consecutive steps are \<open>S = 4\<close> frames apart. The frame saved as number \<open>e\<close> is the real
  frame at offset \<open>S * e\<close> from the first, whatever \<open>n\<close> is, and it is the right edge of
  step \<open>k - 1 + e\<close>: of step \<open>e\<close> exactly when \<open>n = 1\<close>.
\<close>

theorem steps_stride_apart:
  assumes "video \<noteq> []" and "video_fps \<noteq> 0"
    and "uniform_frame_sample video (fl_div engine_fps video_fps) = Inr sampled"
    and "1 \<le> n"
  shows "let padded = replicate frames_to_add (hd sampled) @ sampled;
             k = min (nat n) 12; saved = (length sampled + 3) div 4
         in \<exists>r. compute_features (engine_infer net) seen video engine_fps video_fps n True = Inr r
              \<and> features r
                  = map (\<lambda>e. net (seen @ take (MODEL_TEMPORAL_STRIDE * (13 - k + e)) padded))
                      [0..<k - 1 + saved]
              \<and> saved_frames r
                  = Some (map (\<lambda>e. sampled ! (MODEL_TEMPORAL_STRIDE * e)) [0..<saved])
              \<and> map (\<lambda>e. features r ! (k - 1 + e)) [0..<saved]
                  = map (\<lambda>e. net (seen @ replicate frames_to_add (hd sampled)
                                       @ take (MODEL_TEMPORAL_STRIDE * e + 1) sampled))
                      [0..<saved]"
proof -
  define padded where "padded = replicate frames_to_add (hd sampled) @ sampled"
  define k where "k = min (nat n) 12"
  define saved where "saved = (length sampled + 3) div 4"
  define f where "f = (\<lambda>e. net (seen @ take (4 * (13 - k + e)) padded))"
  have ne: "sampled \<noteq> []" by (rule sampled_nonempty [OF assms(1,3)])
  have k: "1 \<le> k" "k \<le> 12" unfolding k_def using assms(4) by auto
  have cnt: "k + (length sampled - 1) div 4 = k - 1 + saved"
    unfolding saved_def using k ne by (cases sampled) simp_all
  have cf: "compute_features (engine_infer net) seen video engine_fps video_fps n True =
              Inr \<lparr> features = map f [0..<k - 1 + saved],
                    saved_frames = Some (map (\<lambda>e. sampled ! (4 * e)) [0..<saved]),
                    engine_state = seen @ padded \<rparr>"
    unfolding compute_features_engine_steps [OF assms(2,3) ne assms(4)]
    unfolding k_def [symmetric] padded_def [symmetric] cnt saved_def [symmetric] f_def by simp
  have el: "map f [0..<k - 1 + saved] ! (k - 1 + e)
              = net (seen @ replicate frames_to_add (hd sampled) @ take (4 * e + 1) sampled)"
    if "e < saved" for e
  proof -
    have "13 - k + (k - 1 + e) = 12 + e" using k by arith
    then have "4 * (13 - k + (k - 1 + e)) = frames_to_add + (4 * e + 1)"
      by (simp add: frames_to_add_47)
    then have "take (4 * (13 - k + (k - 1 + e))) padded
                 = replicate frames_to_add (hd sampled) @ take (4 * e + 1) sampled"
      unfolding padded_def by (simp only: take_append) simp
    moreover have "map f [0..<k - 1 + saved] ! (k - 1 + e) = f (k - 1 + e)"
      using that by simp
    ultimately show ?thesis unfolding f_def by simp
  qed
  have "map (\<lambda>e. map f [0..<k - 1 + saved] ! (k - 1 + e)) [0..<saved]
          = map (\<lambda>e. net (seen @ replicate frames_to_add (hd sampled) @ take (4 * e + 1) sampled))
              [0..<saved]"
    by (rule map_cong [OF refl]) (simp only: el set_upt atLeastLessThan_iff)
  then show ?thesis
    unfolding Let_def padded_def [symmetric] k_def [symmetric] saved_def [symmetric] cf
      MODEL_TEMPORAL_STRIDE_def f_def
    by simp
qed

theorem steps_stride_apart_witness:
  "[0, 1, 2, 3, 4, 5, 6, 7, 8 :: nat] \<noteq> [] \<and> (16 :: rat) \<noteq> 0
   \<and> uniform_frame_sample [0, 1, 2, 3, 4, 5, 6, 7, 8 :: nat] (fl_div 16 16)
       = Inr [0, 1, 2, 3, 4, 5, 6, 7, 8]
   \<and> (1 :: int) \<le> 3
   \<and> (let padded = replicate frames_to_add (hd [0, 1, 2, 3, 4, 5, 6, 7, 8 :: nat])
                       @ [0, 1, 2, 3, 4, 5, 6, 7, 8];
           k = min (nat 3) 12; saved = (length [0, 1, 2, 3, 4, 5, 6, 7, 8 :: nat] + 3) div 4
       in \<exists>r. compute_features (engine_infer last) [] [0, 1, 2, 3, 4, 5, 6, 7, 8 :: nat] 16 16 3 True
                 = Inr r
            \<and> features r
                = map (\<lambda>e. last ([] @ take (MODEL_TEMPORAL_STRIDE * (13 - k + e)) padded))
                    [0..<k - 1 + saved]
            \<and> saved_frames r
                = Some (map (\<lambda>e. [0, 1, 2, 3, 4, 5, 6, 7, 8] ! (MODEL_TEMPORAL_STRIDE * e)) [0..<saved])
            \<and> map (\<lambda>e. features r ! (k - 1 + e)) [0..<saved]
                = map (\<lambda>e. last ([] @ replicate frames_to_add (hd [0, 1, 2, 3, 4, 5, 6, 7, 8])
                                     @ take (MODEL_TEMPORAL_STRIDE * e + 1) [0, 1, 2, 3, 4, 5, 6, 7, 8]))
                    [0..<saved])"
proof -
  have h1: "[0, 1, 2, 3, 4, 5, 6, 7, 8 :: nat] \<noteq> []" by simp
  have h2: "(16 :: rat) \<noteq> 0" by simp
  have h4: "(1 :: int) \<le> 3" by simp
  note c = steps_stride_apart [OF h1 h2 sample_same_rate h4, of last "[]"]
  from h1 h2 sample_same_rate [of "[0, 1, 2, 3, 4, 5, 6, 7, 8 :: nat]"] h4 c show ?thesis
    by (intro conjI)
qed

text \<open>
  C7, as the claim states it, fails when more than one warm-up step is kept: for nine
  frames and \<^verbatim>\<open>num_timesteps = 3\<close> the steps end at the frames \<open>0, 0, 0, 4, 8\<close> (after
  \<open>40, 44, 48, 52, 56\<close> frames of the padded stream) and the frames saved are
  \<open>0, 4, 8\<close>: step 1 ends on a padding copy of the first frame, not on the saved
  frame 1, which is the real frame 4.
\<close>

theorem saved_frame_step_counterexample:
  "(\<exists>r. compute_features (engine_infer last) [] [0, 1, 2, 3, 4, 5, 6, 7, 8 :: nat] 16 16 3 True = Inr r
        \<and> features r = [0, 0, 0, 4, 8] \<and> saved_frames r = Some [0, 4, 8])
   \<and> (\<exists>r. compute_features (engine_infer length) [] [0, 1, 2, 3, 4, 5, 6, 7, 8 :: nat] 16 16 3 True
            = Inr r
        \<and> features r = [40, 44, 48, 52, 56] \<and> saved_frames r = Some [0, 4, 8])"
proof -
  have ne: "[0, 1, 2, 3, 4, 5, 6, 7, 8 :: nat] \<noteq> []" by simp
  have z: "(16 :: rat) \<noteq> 0" by simp
  have n: "(1 :: int) \<le> 3" by simp
  have u: "[0..<5] = [0, 1, 2, 3, 4]" "[0..<3] = [0, 1, 2]" by (simp_all add: upt_rec)
  show ?thesis
    unfolding compute_features_engine_steps [OF z sample_same_rate ne n]
    by (simp add: u frames_to_add_47)
qed

lemma compute_features_recording:
  assumes "video_fps \<noteq> 0" and "uniform_frame_sample video (fl_div engine_fps video_fps) = Inr sampled"
    and "sampled \<noteq> []"
  shows "compute_features recording_infer calls video engine_fps video_fps n save =
           Inr \<lparr> features = [],
                 saved_frames =
                   (if save then Some (frames_to_save (replicate frames_to_add (hd sampled) @ sampled))
                    else None),
                 engine_state = calls @ [replicate (frames_to_add + 1) (hd sampled), drop 1 sampled] \<rparr>"
proof -
  have "replicate frames_to_add (hd sampled) @ take 1 sampled = replicate (frames_to_add + 1) (hd sampled)"
    using assms(3) by (cases sampled) (simp_all add: replicate_append_same)
  then show ?thesis
    unfolding compute_features_sampled [OF assms] Let_def
    by (simp add: recording_infer_def py_slice_from_def)
qed

text \<open>
  C6, as the code has it, for a non-empty video whose resampling returns the stream
  \<open>sampled\<close>. The model is called twice: the warm-up call receives exactly
  \<open>frames_to_add + 1 = S * (R div S + 1) = 48 \<ge> 45\<close> frames, all copies of the first
  frame, and the second call receives only the remaining real frames, after the 48 of
  the first. With a network that reports how many frames of the stream it has
  consumed, every step emitted for \<^verbatim>\<open>num_timesteps = 1\<close> reports \<open>48 + S * e\<close>, at
  least \<open>R = 45\<close>.
\<close>

theorem minimum_context:
  assumes "video \<noteq> []" and "video_fps \<noteq> 0"
    and "uniform_frame_sample video (fl_div engine_fps video_fps) = Inr sampled"
  shows "(\<exists>r. compute_features recording_infer [] video engine_fps video_fps n save = Inr r
            \<and> engine_state r = [replicate (frames_to_add + 1) (hd sampled), drop 1 sampled])
       \<and> frames_to_add + 1
           = MODEL_TEMPORAL_STRIDE * (MODEL_TEMPORAL_DEPENDENCY div MODEL_TEMPORAL_STRIDE + 1)
       \<and> frames_to_add + 1 = 48
       \<and> MODEL_TEMPORAL_DEPENDENCY \<le> frames_to_add + 1
       \<and> (\<exists>r. compute_features (engine_infer length) [] video engine_fps video_fps 1 save = Inr r
            \<and> features r
                = map (\<lambda>e. frames_to_add + 1 + MODEL_TEMPORAL_STRIDE * e) [0..<(length sampled + 3) div 4]
            \<and> list_all (\<lambda>w. MODEL_TEMPORAL_DEPENDENCY \<le> w) (features r))"
proof -
  have ne: "sampled \<noteq> []" by (rule sampled_nonempty [OF assms(1,3)])
  have w: "length ([] @ replicate frames_to_add (hd sampled) @ take (4 * e + 1) sampled)
             = frames_to_add + 1 + 4 * e" if "e < (length sampled + 3) div 4" for e
  proof -
    have "4 * e + 1 \<le> length sampled" using that by linarith
    then show ?thesis by simp
  qed
  have m: "map (\<lambda>e. length ([] @ replicate frames_to_add (hd sampled) @ take (4 * e + 1) sampled))
             [0..<(length sampled + 3) div 4]
           = map (\<lambda>e. frames_to_add + 1 + 4 * e) [0..<(length sampled + 3) div 4]"
    by (rule map_cong [OF refl]) (simp only: w set_upt atLeastLessThan_iff)
  have a: "list_all (\<lambda>w. MODEL_TEMPORAL_DEPENDENCY \<le> w)
             (map (\<lambda>e. frames_to_add + 1 + 4 * e) [0..<(length sampled + 3) div 4])"
    by (simp add: list_all_iff frames_to_add_47 MODEL_TEMPORAL_DEPENDENCY_def)
  show ?thesis
    unfolding compute_features_recording [OF assms(2,3) ne] compute_features_engine [OF assms(2,3) ne] m
    using a
    by (simp add: frames_to_add_47 MODEL_TEMPORAL_DEPENDENCY_def MODEL_TEMPORAL_STRIDE_def)
qed

theorem minimum_context_witness:
  "[0, 1, 2, 3, 4, 5, 6, 7, 8 :: nat] \<noteq> [] \<and> (16 :: rat) \<noteq> 0
   \<and> uniform_frame_sample [0, 1, 2, 3, 4, 5, 6, 7, 8 :: nat] (fl_div 16 16)
       = Inr [0, 1, 2, 3, 4, 5, 6, 7, 8]
   \<and> (\<exists>r. compute_features recording_infer [] [0, 1, 2, 3, 4, 5, 6, 7, 8 :: nat] 16 16 1 True = Inr r
          \<and> engine_state r = [replicate 48 0, [1, 2, 3, 4, 5, 6, 7, 8]])
   \<and> (\<exists>r. compute_features (engine_infer length) [] [0, 1, 2, 3, 4, 5, 6, 7, 8 :: nat] 16 16 1 True
            = Inr r
          \<and> features r = [48, 52, 56])"
proof -
  have h1: "[0, 1, 2, 3, 4, 5, 6, 7, 8 :: nat] \<noteq> []" by simp
  have h2: "(16 :: rat) \<noteq> 0" by simp
  have u: "[0..<3] = [0, 1, 2]" by (simp add: upt_rec)
  note c = minimum_context [OF h1 h2 sample_16_16, of 1 True]
  from c have a: "\<exists>r. compute_features recording_infer [] [0, 1, 2, 3, 4, 5, 6, 7, 8 :: nat] 16 16 1 True = Inr r
          \<and> engine_state r = [replicate 48 0, [1, 2, 3, 4, 5, 6, 7, 8]]"
    by (simp add: frames_to_add_47)
  from c have b: "\<exists>r. compute_features (engine_infer length) [] [0, 1, 2, 3, 4, 5, 6, 7, 8 :: nat] 16 16 1 True
            = Inr r \<and> features r = [48, 52, 56]"
    by (auto simp: frames_to_add_47 u MODEL_TEMPORAL_STRIDE_def)
  from h1 h2 sample_16_16 a b show ?thesis by (intro conjI)
qed

text \<open>
  C6, as the claim states it, fails: for a stream of one frame the second model call
  is made on no frame at all, fewer than \<open>R = 45\<close>; and for \<^verbatim>\<open>num_timesteps = 2\<close> the
  first step emitted has consumed only 44 frames of the padded stream.
\<close>

theorem model_call_window_counterexample:
  "(\<exists>r. compute_features recording_infer [] [0 :: nat] 16 16 1 False = Inr r
        \<and> engine_state r = [replicate 48 0, []]
        \<and> length (engine_state r ! 1) < MODEL_TEMPORAL_DEPENDENCY)
   \<and> (\<exists>r. compute_features (engine_infer length) [] [0, 1, 2, 3, 4, 5, 6, 7, 8 :: nat] 16 16 2 False
            = Inr r
        \<and> features r = [44, 48, 52, 56]
        \<and> features r ! 0 < MODEL_TEMPORAL_DEPENDENCY)"
proof -
  have ne1: "[0 :: nat] \<noteq> []" by simp
  have ne: "[0, 1, 2, 3, 4, 5, 6, 7, 8 :: nat] \<noteq> []" by simp
  have z: "(16 :: rat) \<noteq> 0" by simp
  have n: "(1 :: int) \<le> 2" by simp
  have u: "[0..<4] = [0, 1, 2, 3]" by (simp add: upt_rec)
  show ?thesis
    unfolding compute_features_recording [OF z sample_same_rate ne1]
      compute_features_engine_steps [OF z sample_same_rate ne n]
    by (simp add: u frames_to_add_47 MODEL_TEMPORAL_DEPENDENCY_def)
qed

text \<open>
  C5 fails on the code at the same input: the resampler raises before any frame is
  padded or any feature is computed, whatever the engine, so nothing is saved.
\<close>

theorem compute_features_index_failure:
  "compute_features infer st [0..<18] 25 90 n save = Inl IndexError"
  using sample_25_90 by (simp add: compute_features_def)

lemma sample_5: "uniform_frame_sample [1, 2, 3, 4, 5 :: nat] (fl_div 16 16) = Inr [1, 2, 3, 4, 5]"
proof -
  have "fl_div 16 16 = 1" by code_simp
  then show ?thesis by (simp add: uniform_frame_sample_def)
qed

text \<open>
  C4, as the claim states it, fails: for the five frames \<open>1, \<dots>, 5\<close> the frames fed to
  the model are 47 copies of the first frame followed by the five frames (the last
  frame is never repeated), and two features are emitted, not one.
\<close>

theorem short_stream_counterexample:
  "length [1, 2, 3, 4, 5 :: nat] < MODEL_TEMPORAL_DEPENDENCY
   \<and> (\<exists>r. compute_features (engine_infer (\<lambda>w. w)) [] [1, 2, 3, 4, 5 :: nat] 16 16 1 False = Inr r
          \<and> engine_state r = replicate 47 1 @ [1, 2, 3, 4, 5]
          \<and> features r = [replicate 47 1 @ [1], replicate 47 1 @ [1, 2, 3, 4, 5]]
          \<and> length (features r) = 2)"
proof -
  have ne: "[1, 2, 3, 4, 5 :: nat] \<noteq> []" by simp
  have z: "(16 :: rat) \<noteq> 0" by simp
  have u: "[0..<2] = [0, 1]" by (simp add: upt_rec)
  show ?thesis
    unfolding compute_features_engine [OF z sample_5 ne]
    by (simp add: u frames_to_add_47 MODEL_TEMPORAL_DEPENDENCY_def)
qed

text \<open>
  C4, as the code has it. For a non-empty stream of fewer than \<open>R = 45\<close> frames (the
  stream that resampling returns), with \<^verbatim>\<open>num_timesteps = 1\<close>: the stream is padded on
  the left with 47 copies of its first frame, so the model is fed at least \<open>R\<close>
  frames, and one feature is emitted for every stride of 4 real frames, \<open>ceil(L / 4)\<close>
  in all: at least one and at most 11.
\<close>

theorem short_stream_padding:
  assumes "video \<noteq> []" and "video_fps \<noteq> 0"
    and "uniform_frame_sample video (fl_div engine_fps video_fps) = Inr sampled"
    and "length sampled < MODEL_TEMPORAL_DEPENDENCY"
  shows "\<exists>r. compute_features (engine_infer net) seen video engine_fps video_fps 1 save = Inr r
           \<and> engine_state r = seen @ replicate frames_to_add (hd sampled) @ sampled
           \<and> MODEL_TEMPORAL_DEPENDENCY \<le> length (replicate frames_to_add (hd sampled) @ sampled)
           \<and> length (features r) = (length sampled + 3) div 4
           \<and> 1 \<le> length (features r) \<and> length (features r) \<le> 11"
proof -
  have ne: "sampled \<noteq> []" by (rule sampled_nonempty [OF assms(1,3)])
  then have "0 < length sampled" by simp
  then have "1 \<le> (length sampled + 3) div 4" "(length sampled + 3) div 4 \<le> 11"
    using assms(4) unfolding MODEL_TEMPORAL_DEPENDENCY_def by linarith+
  then show ?thesis
    unfolding compute_features_engine [OF assms(2,3) ne]
    by (simp add: frames_to_add_47 MODEL_TEMPORAL_DEPENDENCY_def)
qed

theorem short_stream_padding_witness:
  "[1, 2, 3, 4, 5 :: nat] \<noteq> [] \<and> (16 :: rat) \<noteq> 0
   \<and> uniform_frame_sample [1, 2, 3, 4, 5 :: nat] (fl_div 16 16) = Inr [1, 2, 3, 4, 5]
   \<and> length [1, 2, 3, 4, 5 :: nat] < MODEL_TEMPORAL_DEPENDENCY
   \<and> (\<exists>r. compute_features (engine_infer (\<lambda>w. w)) [] [1, 2, 3, 4, 5 :: nat] 16 16 1 False = Inr r
          \<and> engine_state r = replicate 47 1 @ [1, 2, 3, 4, 5]
          \<and> length (features r) = 2)"
proof -
  have h1: "[1, 2, 3, 4, 5 :: nat] \<noteq> []" by simp
  have h2: "(16 :: rat) \<noteq> 0" by simp
  have h4: "length [1, 2, 3, 4, 5 :: nat] < MODEL_TEMPORAL_DEPENDENCY"
    by (simp add: MODEL_TEMPORAL_DEPENDENCY_def)
  from short_stream_padding [OF h1 h2 sample_5 h4, of "\<lambda>w. w" "[]" False]
  have c: "\<exists>r. compute_features (engine_infer (\<lambda>w. w)) [] [1, 2, 3, 4, 5 :: nat] 16 16 1 False = Inr r
          \<and> engine_state r = replicate 47 1 @ [1, 2, 3, 4, 5]
          \<and> length (features r) = 2"
    by (auto simp: frames_to_add_47)
  from h1 h2 sample_5 h4 c show ?thesis by (intro conjI)
qed

subsection \<open>Training crops\<close>

text \<open>
  The positions the draw can return when \<open>num_preds\<close> exceeds \<open>num_timesteps\<close>, and the
  slice of \<open>num_timesteps\<close> features taken at a position inside the array.
\<close>

lemma crop_positions_eq:
  assumes "nt < num_preds"
  shows "crop_positions num_preds nt padded
           = Inr [minimum_position num_preds nt padded..num_preds - nt - 1]"
    and "minimum_position num_preds nt padded \<le> num_preds - nt - 1"
  using assms by (simp_all add: crop_positions_def randint_def minimum_position_def)

lemma py_slice_crop:
  assumes "0 \<le> p" "0 < nt" "p + nt \<le> int (length xs)"
  shows "py_slice xs p (p + nt) = take (nat nt) (drop (nat p) xs)"
proof -
  have "slice_bound (length xs) p = nat p" "slice_bound (length xs) (p + nt) = nat p + nat nt"
    using assms by (simp_all add: slice_bound_def nat_add_distrib)
  then show ?thesis by (simp add: py_slice_def)
qed

lemma padded_45_4: "int_div_trunc (45 - 1) 4 = Inr 11"
proof -
  have "fl_div (of_int 44) (of_int 4) = rnd (of_int 11)" by (simp add: fl_div_def)
  also have "\<dots> = of_int 11" by (rule rnd_of_int) simp
  finally show ?thesis by (simp add: int_div_trunc_def trunc_of_int [of 11, simplified])
qed

text \<open>
  C10. The training crop of \<^verbatim>\<open>FeaturesDataset.__getitem__\<close> for an item without temporal
  annotation whose number of features \<open>num_preds\<close> exceeds \<open>num_timesteps > 0\<close>. The
  draw of the start position never fails; every position it can return is at least
  \<open>max(min(num_preds - num_timesteps - 1, num_frames_padded), 0)\<close> and below
  \<open>num_preds - num_timesteps\<close>, and the item returned for it is the crop of
  \<open>num_timesteps\<close> features starting there. When
  \<open>num_preds > num_timesteps + num_frames_padded\<close>, every position is at least
  \<open>num_frames_padded\<close>, so the crop holds none of the first \<open>num_frames_padded\<close>
  features, those computed on warm-up padding.
\<close>

theorem getitem_crop_excludes_padding:
  assumes "py_nth (files ds) idx = Inr feats"
    and "py_nth (temporal_annotations ds) idx = Inr None"
    and "py_nth (labels ds) idx = Inr label"
    and "num_timesteps ds = Some nt" and "0 < nt" and "nt < int (length feats)"
  shows "\<exists>positions.
           crop_positions (int (length feats)) nt (num_frames_padded ds) = Inr positions
         \<and> positions \<noteq> []
         \<and> getitem ds idx
             = Inr (map (\<lambda>position. (take (nat nt) (drop (nat position) feats), label, [- 100]))
                      positions)
         \<and> (\<forall>position \<in> set positions.
               max (min (int (length feats) - nt - 1) (num_frames_padded ds)) 0 \<le> position
             \<and> position < int (length feats) - nt
             \<and> (nt + num_frames_padded ds < int (length feats) \<longrightarrow>
                  num_frames_padded ds \<le> position))"
proof -
  define num_preds where "num_preds = int (length feats)"
  define lo where "lo = minimum_position num_preds nt (num_frames_padded ds)"
  have cp: "crop_positions num_preds nt (num_frames_padded ds) = Inr [lo..num_preds - nt - 1]"
    and le: "lo \<le> num_preds - nt - 1"
    unfolding lo_def using crop_positions_eq [of nt num_preds] assms(6) num_preds_def by simp_all
  have lo0: "0 \<le> lo" unfolding lo_def minimum_position_def by simp
  have sl: "py_slice feats p (p + nt) = take (nat nt) (drop (nat p) feats)"
    if "p \<in> set [lo..num_preds - nt - 1]" for p
    using that lo0 assms(5) unfolding num_preds_def by (intro py_slice_crop) auto
  have m: "map (\<lambda>position. (py_slice feats position (position + nt), label, [- 100 :: int]))
             [lo..num_preds - nt - 1]
           = map (\<lambda>position. (take (nat nt) (drop (nat position) feats), label, [- 100]))
             [lo..num_preds - nt - 1]"
    by (rule map_cong [OF refl]) (simp only: sl)
  have g: "getitem ds idx
             = Inr (map (\<lambda>position. (take (nat nt) (drop (nat position) feats), label, [- 100]))
                      [lo..num_preds - nt - 1])"
    unfolding getitem_def Let_def assms(1-4) num_preds_def [symmetric]
    using assms(5,6) cp m by (simp add: num_preds_def comp_def)
  have b: "\<forall>position \<in> set [lo..num_preds - nt - 1].
               max (min (num_preds - nt - 1) (num_frames_padded ds)) 0 \<le> position
             \<and> position < num_preds - nt
             \<and> (nt + num_frames_padded ds < num_preds \<longrightarrow> num_frames_padded ds \<le> position)"
    unfolding lo_def minimum_position_def by auto
  have ne: "[lo..num_preds - nt - 1] \<noteq> []" using le by simp
  from cp ne g b show ?thesis unfolding num_preds_def by blast
qed

theorem getitem_crop_excludes_padding_witness:
  "features_dataset_init [[0, 1, 2, 3, 4, 5, 6, 7, 8, 9, 10, 11, 12, 13, 14 :: nat]] [''squat'']
       [None] 45 (Some 2) 4
     = Inr \<lparr> files = [[0, 1, 2, 3, 4, 5, 6, 7, 8, 9, 10, 11, 12, 13, 14]], labels = [''squat''],
             num_timesteps = Some 2, stride = 4, temporal_annotations = [None],
             num_frames_padded = 11 \<rparr>
   \<and> getitem \<lparr> files = [[0, 1, 2, 3, 4, 5, 6, 7, 8, 9, 10, 11, 12, 13, 14 :: nat]],
               labels = [''squat''], num_timesteps = Some 2, stride = 4,
               temporal_annotations = [None], num_frames_padded = 11 \<rparr> 0
     = Inr [([11, 12], ''squat'', [- 100]), ([12, 13], ''squat'', [- 100])]"
proof -
  define feats where "feats = [0, 1, 2, 3, 4, 5, 6, 7, 8, 9, 10, 11, 12, 13, 14 :: nat]"
  define ds where "ds = \<lparr> files = [feats], labels = [''squat''], num_timesteps = Some 2,
    stride = 4, temporal_annotations = [None], num_frames_padded = 11 \<rparr>"
  have l: "int (length feats) = 15" unfolding feats_def by simp
  have i: "features_dataset_init [feats] [''squat''] [None] 45 (Some 2) 4 = Inr ds"
    unfolding ds_def features_dataset_init_def padded_45_4 by simp
  have h1: "py_nth (files ds) 0 = Inr feats" unfolding ds_def by (simp add: py_nth_def)
  have h2: "py_nth (temporal_annotations ds) 0 = Inr None" unfolding ds_def by (simp add: py_nth_def)
  have h3: "py_nth (labels ds) 0 = Inr ''squat''" unfolding ds_def by (simp add: py_nth_def)
  have h4: "num_timesteps ds = Some 2" unfolding ds_def by simp
  have h5: "(0 :: int) < 2" by simp
  have h6: "2 < int (length feats)" unfolding l by simp
  have p: "crop_positions (int (length feats)) 2 (num_frames_padded ds) = Inr [11, 12]"
    unfolding l ds_def
    by (simp add: crop_positions_def randint_def minimum_position_def upto_rec1)
  from getitem_crop_excludes_padding [OF h1 h2 h3 h4 h5 h6]
  have "getitem ds 0
          = Inr (map (\<lambda>position. (take (nat 2) (drop (nat position) feats), ''squat'', [- 100]))
                   [11, 12])"
    unfolding p by auto
  then have "getitem ds 0 = Inr [([11, 12], ''squat'', [- 100]), ([12, 13], ''squat'', [- 100])]"
    unfolding feats_def by simp
  with i show ?thesis unfolding ds_def feats_def by (intro conjI)
qed

end
